theory Spec2Isabelle
  imports Main "HOL-Library.AList"
begin

section \<open>Polling an AWS request with back-off: \<open>pollAWSRequest\<close>\<close>

text \<open>
  \<^verbatim>\<open>
  export async function pollAWSRequest<T>(n, description, fn) {
      let duration = 1000;
      for (let i = 1; i < n; i++) {
          const result = await quietly(fn());
          if (result) { return result; }
          await sleep(duration);
          if (duration < 5000) { duration += 1000; }
      }
      try { return await fn().promise(); }
      catch (err) { warn(err); throw err; }
  }
  \<close>
  Every call of \<open>fn()\<close> issues a fresh request; its outcome is what the service answers
  to that request. The model takes the answers as a function of the number of the request
  (0 for the first). \<open>quietly\<close> turns a failure into \<open>undefined\<close>, so inside the loop a
  failed request and a falsy result are treated alike; \<open>truthy\<close> is JavaScript's
  truthiness of a result. The function returns the list of the \<open>sleep\<close> durations it
  waited, in order, and either the thrown error (\<open>Inl\<close>) or the result (\<open>Inr\<close>).
\<close>

datatype 'a attempt = Fails string | Yields 'a

function pollAWSRequest_loop ::
  "('a \<Rightarrow> bool) \<Rightarrow> int \<Rightarrow> (nat \<Rightarrow> 'a attempt) \<Rightarrow> int \<Rightarrow> int \<Rightarrow> nat \<Rightarrow> int list
     \<Rightarrow> int list \<times> (string + 'a)"
where
  "pollAWSRequest_loop truthy n fn i duration k slept =
     (if i < n then
        (case fn k of
           Yields r \<Rightarrow>
             if truthy r then (slept, Inr r)
             else pollAWSRequest_loop truthy n fn (i + 1)
                    (if duration < 5000 then duration + 1000 else duration)
                    (Suc k) (slept @ [duration])
         | Fails e \<Rightarrow>
             pollAWSRequest_loop truthy n fn (i + 1)
               (if duration < 5000 then duration + 1000 else duration)
               (Suc k) (slept @ [duration]))
      else
        (case fn k of
           Yields r \<Rightarrow> (slept, Inr r)
         | Fails e \<Rightarrow> (slept, Inl e)))"
  by pat_completeness auto
termination
  by (relation "measure (\<lambda>(truthy, n, fn, i, duration, k, slept). nat (n - i))") auto

definition pollAWSRequest ::
  "('a \<Rightarrow> bool) \<Rightarrow> int \<Rightarrow> (nat \<Rightarrow> 'a attempt) \<Rightarrow> int list \<times> (string + 'a)"
where
  "pollAWSRequest truthy n fn = pollAWSRequest_loop truthy n fn 1 1000 0 []"

text \<open>Whether a request inside the loop ends the polling: it succeeded with a truthy result.\<close>

fun accepted :: "('a \<Rightarrow> bool) \<Rightarrow> 'a attempt \<Rightarrow> bool" where
  "accepted truthy (Yields r) = truthy r"
| "accepted truthy (Fails e) = False"

section \<open>The queue path of \<open>cloudifyWithResponse\<close> and the result collector\<close>

text \<open>
  The engine state of the source is
  \<^verbatim>\<open>
  export interface State {
      resources: AWSResources;  services: AWSServices;  useQueue?: boolean;
      callResultPromises: { [MessageId: string]: Deferred<QueuedResponse<any>> };
      resultCollectorPromise?: Promise<void>;
  }
  \<close>
  The code is asynchronous JavaScript on one event loop: an \<open>async\<close> function runs
  without interruption up to its next \<open>await\<close>, and is resumed later, when the awaited
  promise has settled. The model makes every such piece of uninterrupted code one
  transition of a state machine. Each invocation of an \<open>async\<close> function is a task with a
  program counter saying at which \<open>await\<close> it is suspended; the tasks of one kind are
  numbered in the order of their creation. The answers of the outside world (what
  \<open>sqs.receiveMessage\<close> delivers, whether \<open>sns.publish\<close> succeeds, when a timer fires, when
  somebody calls a function) are the actions that drive the machine. Every operation on
  the transport and every call of \<open>resolve\<close> or \<open>reject\<close> is appended to a trace.
\<close>

type_synonym callid = string
type_synonym receipt = string

text \<open>
  \<open>FunctionReturn\<close>: what the remote side sends back, \<open>{ CallId, type, value }\<close>. The
  value is kept as the text it was serialised to; for a function that failed
  (\<open>type\<close> is \<open>"error"\<close>) it describes the error.
\<close>

record functionReturn =
  CallId :: callid
  rtype :: string
  rvalue :: string

text \<open>
  An SQS message \<open>{ Body, ReceiptHandle }\<close>. \<open>Body\<close> is \<open>None\<close> when the body is absent or
  empty (the test \<open>if (Body)\<close> fails); otherwise it carries what \<open>JSON.parse(Body)\<close> does:
  return a \<open>FunctionReturn\<close>, or throw.
\<close>

datatype body = Parsed functionReturn | Unparsable

record message =
  Body :: "body option"
  ReceiptHandle :: receipt

text \<open>\<open>QueuedResponse\<close>: \<open>{ returned, rawResponse }\<close>; the raw response is the received batch.\<close>

record queuedResponse =
  returned :: functionReturn
  rawResponse :: "message list"

text \<open>A promise, settled at most once: \<open>resolve\<close> and \<open>reject\<close> on a settled promise do nothing.\<close>

datatype 'a promise = Pending | Fulfilled 'a | Rejected string

fun resolve :: "'a promise \<Rightarrow> 'a \<Rightarrow> 'a promise" where
  "resolve Pending v = Fulfilled v"
| "resolve (Fulfilled w) v = Fulfilled w"
| "resolve (Rejected e) v = Rejected e"

fun reject :: "'a promise \<Rightarrow> string \<Rightarrow> 'a promise" where
  "reject Pending e = Rejected e"
| "reject (Fulfilled w) e = Fulfilled w"
| "reject (Rejected e') e = Rejected e'"

text \<open>
  The value \<open>responsifedFunc\<close> returns, \<open>{ value, error, rawResponse }\<close>: when the remote
  function failed (\<open>returned.type === "error"\<close>) the error is set and the value is not.
\<close>

record response =
  resp_value :: "string option"
  resp_error :: "string option"
  resp_rawResponse :: "message list"

text \<open>
  The tasks. A \<open>resultCollector\<close> invocation is suspended in \<open>receiveMessage\<close> or in
  \<open>Promise.all(deletePromises)\<close>, or it has returned, or it has died of an exception.
  A \<open>responsifedFunc\<close> invocation on the queue path waits for its deferred, then for
  \<open>sns.publish\<close>, and ends returning a response or throwing. A \<open>cancelWithoutCleanup\<close>
  invocation waits for the collector promise it found, and ends returning or throwing.
\<close>

datatype collector = NotStarted | Receiving | Deleting | Exited | Crashed

datatype caller =
    NoCaller
  | AwaitDeferred callid nat
  | AwaitPublish callid nat queuedResponse
  | Returned response
  | Threw string

datatype cancel = NoCancel | AwaitCollector nat | CancelReturned | CancelThrew

datatype event =
    Register callid nat
  | ReceiveMessage nat
  | Resolve nat callid
  | NotFound callid
  | DeleteMessage receipt
  | CollectorExit nat
  | SetTimeout
  | Publish callid
  | Reject nat

record state =
  callResultPromises :: "(callid \<times> nat) list"
  resultCollectorPromise :: "nat option"
  deferreds :: "nat \<Rightarrow> queuedResponse promise"
  nextDeferred :: nat
  collectors :: "nat \<Rightarrow> collector"
  nextCollector :: nat
  callers :: "nat \<Rightarrow> caller"
  nextCaller :: nat
  cancels :: "nat \<Rightarrow> cancel"
  nextCancel :: nat
  timers :: nat
  trace :: "event list"

text \<open>
  The table \<open>callResultPromises\<close> is an association list from CallId to the number of the
  \<open>Deferred\<close> object stored there, in insertion order; \<open>deferreds\<close> is the heap of the
  \<open>Deferred\<close> objects created so far. \<open>resultCollectorPromise\<close> holds the number of the
  collector invocation whose promise is stored in the field. \<open>timers\<close> counts the
  \<open>setTimeout\<close> callbacks not yet run. The state \<open>initialize\<close> builds:
\<close>

definition init :: state where
  "init = \<lparr> callResultPromises = [], resultCollectorPromise = None,
            deferreds = (\<lambda>d. Pending), nextDeferred = 0,
            collectors = (\<lambda>k. NotStarted), nextCollector = 0,
            callers = (\<lambda>i. NoCaller), nextCaller = 0,
            cancels = (\<lambda>j. NoCancel), nextCancel = 0,
            timers = 0, trace = [] \<rparr>"

definition isEmpty :: "(callid \<times> nat) list \<Rightarrow> bool" where
  "isEmpty obj = (obj = [])"

text \<open>
  The head of the loop of \<open>resultCollector\<close>, run by collector \<open>k\<close>:
  \<^verbatim>\<open>
  while (!isEmpty(state.callResultPromises)) {
      const rawResponse = await sqs.receiveMessage({...}).promise();
      ...
  }
  delete state.resultCollectorPromise;
  setTimeout(() => { startResultCollectorIfNeeded(state); }, 0);
  \<close>
\<close>

definition loop_test :: "nat \<Rightarrow> state \<Rightarrow> state" where
  "loop_test k s =
     (if \<not> isEmpty (callResultPromises s) then
        s\<lparr> collectors := (collectors s)(k := Receiving),
           trace := trace s @ [ReceiveMessage k] \<rparr>
      else
        s\<lparr> resultCollectorPromise := None,
           timers := Suc (timers s),
           collectors := (collectors s)(k := Exited),
           trace := trace s @ [CollectorExit k, SetTimeout] \<rparr>)"

text \<open>
  \<^verbatim>\<open>
  function startResultCollectorIfNeeded(state: State) {
      if (!isEmpty(state.callResultPromises) && !state.resultCollectorPromise) {
          state.resultCollectorPromise = resultCollector(state);
      }
  }
  \<close>
  The call \<open>resultCollector(state)\<close> runs the new collector up to its first \<open>await\<close>;
  the field is assigned after that.
\<close>

definition startResultCollectorIfNeeded :: "state \<Rightarrow> state" where
  "startResultCollectorIfNeeded s =
     (if \<not> isEmpty (callResultPromises s) \<and> resultCollectorPromise s = None then
        (let k = nextCollector s;
             s1 = loop_test k (s\<lparr> nextCollector := Suc k \<rparr>)
         in s1\<lparr> resultCollectorPromise := Some k \<rparr>)
      else s)"

text \<open>
  The table \<open>state.callResultPromises\<close> is a plain object (\<open>callResultPromises: {}\<close>), so
  reading \<open>state.callResultPromises[CallId]\<close> for a CallId that is no key of the table but
  the name of a member of \<open>Object.prototype\<close> yields that inherited member, a function
  or, for \<open>__proto__\<close>, the prototype itself. These are the names:
\<close>

definition prototype_member :: "callid \<Rightarrow> bool" where
  "prototype_member c \<longleftrightarrow>
     c \<in> set [''constructor'', ''__proto__'', ''hasOwnProperty'', ''isPrototypeOf'',
              ''propertyIsEnumerable'', ''toLocaleString'', ''toString'', ''valueOf'',
              ''__defineGetter__'', ''__defineSetter__'', ''__lookupGetter__'',
              ''__lookupSetter__'']"

text \<open>
  The body of the loop over the received messages:
  \<^verbatim>\<open>
  for (const { Body, ReceiptHandle } of Messages) {
      if (Body) {
          const returned: FunctionReturn = JSON.parse(Body);
          const { CallId } = returned;
          const promise = state.callResultPromises[CallId];
          delete state.callResultPromises[CallId];
          if (!promise) { log(`promise not found for CallID: ${returned.CallId}`); }
          else { promise.resolve({ returned, rawResponse }); }
      }
      const deletePromise = carefully(sqs.deleteMessage({ QueueUrl, ReceiptHandle }));
      deletePromises.push(deletePromise);
  }
  \<close>
  \<open>Inl\<close> is the state in which the body threw: \<open>JSON.parse\<close> threw, or \<open>promise\<close> was
  an inherited member of \<open>Object.prototype\<close>, which is truthy and has no \<open>resolve\<close>, so
  that \<open>promise.resolve(...)\<close> is a \<open>TypeError\<close>; nothing is logged and no deletion is
  issued for the message then. \<open>delete\<close> removes own properties only.
\<close>

definition handleMessage :: "message list \<Rightarrow> state \<Rightarrow> message \<Rightarrow> state + state" where
  "handleMessage raw s m =
     (case Body m of
        None \<Rightarrow> Inr (s\<lparr> trace := trace s @ [DeleteMessage (ReceiptHandle m)] \<rparr>)
      | Some Unparsable \<Rightarrow> Inl s
      | Some (Parsed ret) \<Rightarrow>
          (let c = CallId ret;
               found = map_of (callResultPromises s) c;
               s1 = s\<lparr> callResultPromises := AList.delete c (callResultPromises s) \<rparr>
           in case found of
                Some d \<Rightarrow>
                  Inr (s1\<lparr> deferreds := (deferreds s1)
                              (d := resolve (deferreds s1 d)
                                      \<lparr> returned = ret, rawResponse = raw \<rparr>),
                           trace := trace s1 @ [Resolve d c, DeleteMessage (ReceiptHandle m)] \<rparr>)
              | None \<Rightarrow>
                  if prototype_member c then Inl s1
                  else Inr (s1\<lparr> trace := trace s1
                                  @ [NotFound c, DeleteMessage (ReceiptHandle m)] \<rparr>)))"

fun handleMessages :: "message list \<Rightarrow> state \<Rightarrow> message list \<Rightarrow> state + state" where
  "handleMessages raw s [] = Inr s"
| "handleMessages raw s (m # ms) =
     (case handleMessage raw s m of
        Inl s' \<Rightarrow> Inl s'
      | Inr s' \<Rightarrow> handleMessages raw s' ms)"

text \<open>
  Collector \<open>k\<close> is resumed with the batch \<open>receiveMessage\<close> delivered: it handles the
  messages and suspends in \<open>await Promise.all(deletePromises)\<close>; an exception of
  \<open>JSON.parse\<close> ends it. Or \<open>receiveMessage\<close> failed, which ends it too (nothing in
  \<open>resultCollector\<close> catches). Or the deletions are done (\<open>carefully\<close> catches their errors),
  and it is back at the head of the loop.
\<close>

definition received :: "nat \<Rightarrow> message list \<Rightarrow> state \<Rightarrow> state" where
  "received k msgs s =
     (if collectors s k = Receiving then
        (case handleMessages msgs s msgs of
           Inr s' \<Rightarrow> s'\<lparr> collectors := (collectors s')(k := Deleting) \<rparr>
         | Inl s' \<Rightarrow> s'\<lparr> collectors := (collectors s')(k := Crashed) \<rparr>)
      else s)"

definition receiveFailed :: "nat \<Rightarrow> state \<Rightarrow> state" where
  "receiveFailed k s =
     (if collectors s k = Receiving then s\<lparr> collectors := (collectors s)(k := Crashed) \<rparr>
      else s)"

definition deleted :: "nat \<Rightarrow> state \<Rightarrow> state" where
  "deleted k s = (if collectors s k = Deleting then loop_test k s else s)"

definition timerFired :: "state \<Rightarrow> state" where
  "timerFired s =
     (if 0 < timers s then startResultCollectorIfNeeded (s\<lparr> timers := timers s - 1 \<rparr>)
      else s)"

text \<open>
  \<^verbatim>\<open>
  function enqueueCallRequest(state: State, CallId: string): Deferred<any> {
      ... const deferred = { resolve: resolver, reject: rejector, promise };
      state.callResultPromises[CallId] = deferred;
      startResultCollectorIfNeeded(state);
      return deferred;
  }
  \<close>
  The CallId comes from \<open>uuidv4()\<close>; it is no name of a member of \<open>Object.prototype\<close> and
  not integer-like, so the assignment adds an own property, after the keys already there,
  or overwrites the one of that name.
\<close>

definition enqueueCallRequest :: "callid \<Rightarrow> state \<Rightarrow> nat \<times> state" where
  "enqueueCallRequest c s =
     (let d = nextDeferred s;
          s1 = s\<lparr> nextDeferred := Suc d,
                  deferreds := (deferreds s)(d := Pending),
                  callResultPromises := AList.update c d (callResultPromises s),
                  trace := trace s @ [Register c d] \<rparr>
      in (d, startResultCollectorIfNeeded s1))"

text \<open>
  The queue branch of \<open>responsifedFunc\<close> (\<open>state.useQueue\<close> is true); \<open>c\<close> is what
  \<open>uuidv4()\<close> returned:
  \<^verbatim>\<open>
  const queueResponse = await enqueueCallRequest(state, CallId).promise;
  await sns.publish({ TopicArn: RequestTopicArn, Message: JSON.stringify(request) }).promise();
  ({ returned, rawResponse } = queueResponse);
  ...
  if (returned && returned.type === "error") { error = new Error(errValue.message); ... }
  const value = !error && returned && returned.value;
  let rv = { value, error, rawResponse };
  return rv;
  \<close>
  \<open>call\<close> is the invocation up to the first \<open>await\<close>; \<open>resumeCaller\<close> is the continuation
  after the deferred's promise has settled, up to the second \<open>await\<close>; \<open>published\<close> is the
  continuation after \<open>sns.publish\<close> has settled (\<open>Some err\<close> when it failed).
\<close>

definition call :: "callid \<Rightarrow> state \<Rightarrow> state" where
  "call c s =
     (case enqueueCallRequest c s of
        (d, s1) \<Rightarrow>
          s1\<lparr> nextCaller := Suc (nextCaller s1),
              callers := (callers s1)(nextCaller s1 := AwaitDeferred c d) \<rparr>)"

definition resumeCaller :: "nat \<Rightarrow> state \<Rightarrow> state" where
  "resumeCaller i s =
     (case callers s i of
        AwaitDeferred c d \<Rightarrow>
          (case deferreds s d of
             Pending \<Rightarrow> s
           | Fulfilled qr \<Rightarrow>
               s\<lparr> callers := (callers s)(i := AwaitPublish c d qr),
                  trace := trace s @ [Publish c] \<rparr>
           | Rejected e \<Rightarrow> s\<lparr> callers := (callers s)(i := Threw e) \<rparr>)
      | _ \<Rightarrow> s)"

definition makeResponse :: "queuedResponse \<Rightarrow> response" where
  "makeResponse qr =
     (if rtype (returned qr) = ''error''
      then \<lparr> resp_value = None, resp_error = Some (rvalue (returned qr)),
             resp_rawResponse = rawResponse qr \<rparr>
      else \<lparr> resp_value = Some (rvalue (returned qr)), resp_error = None,
             resp_rawResponse = rawResponse qr \<rparr>)"

definition published :: "nat \<Rightarrow> string option \<Rightarrow> state \<Rightarrow> state" where
  "published i failure s =
     (case callers s i of
        AwaitPublish c d qr \<Rightarrow>
          (case failure of
             None \<Rightarrow> s\<lparr> callers := (callers s)(i := Returned (makeResponse qr)) \<rparr>
           | Some err \<Rightarrow> s\<lparr> callers := (callers s)(i := Threw err) \<rparr>)
      | _ \<Rightarrow> s)"

text \<open>
  \<^verbatim>\<open>
  export async function cancelWithoutCleanup(state: State) {
      const callResultPromises = state.callResultPromises;
      state.callResultPromises = {};
      for (const key of Object.keys(callResultPromises)) {
          callResultPromises[key].reject(new Error("Call to cloud function cancelled in cleanup"));
      }
      if (state.resultCollectorPromise) {
          log(`Waiting for result collector to stop (this can take up to 20s)`);
          await state.resultCollectorPromise;
      }
  }
  \<close>
  \<open>cleanup\<close> calls it (\<open>const cancelPromise = cancelWithoutCleanup(state)\<close>) and awaits
  \<open>cancelPromise\<close> before it deletes the request topic and the response queue.
\<close>

definition cancelled :: string where
  "cancelled = ''Call to cloud function cancelled in cleanup''"

fun rejectAll :: "(callid \<times> nat) list \<Rightarrow> state \<Rightarrow> state" where
  "rejectAll [] s = s"
| "rejectAll ((key, d) # rest) s =
     rejectAll rest
       (s\<lparr> deferreds := (deferreds s)(d := reject (deferreds s d) cancelled),
           trace := trace s @ [Reject d] \<rparr>)"

definition cancelWithoutCleanup :: "state \<Rightarrow> state" where
  "cancelWithoutCleanup s =
     (let s1 = rejectAll (callResultPromises s) (s\<lparr> callResultPromises := [] \<rparr>)
      in s1\<lparr> nextCancel := Suc (nextCancel s1),
             cancels := (cancels s1)
               (nextCancel s1 :=
                  (case resultCollectorPromise s1 of
                     Some k \<Rightarrow> AwaitCollector k
                   | None \<Rightarrow> CancelReturned)) \<rparr>)"

definition resumeCancel :: "nat \<Rightarrow> state \<Rightarrow> state" where
  "resumeCancel j s =
     (case cancels s j of
        AwaitCollector k \<Rightarrow>
          (case collectors s k of
             Exited \<Rightarrow> s\<lparr> cancels := (cancels s)(j := CancelReturned) \<rparr>
           | Crashed \<Rightarrow> s\<lparr> cancels := (cancels s)(j := CancelThrew) \<rparr>
           | _ \<Rightarrow> s)
      | _ \<Rightarrow> s)"

text \<open>
  The actions of the outside world and of the event loop, and the machine. An action that
  is not possible in a state (resuming a task that is not waiting for it) changes nothing.
\<close>

datatype action =
    Call callid
  | ResumeCaller nat
  | Published nat "string option"
  | Received nat "message list"
  | ReceiveFailed nat
  | Deleted nat
  | TimerFired
  | Cancel
  | ResumeCancel nat

fun step :: "action \<Rightarrow> state \<Rightarrow> state" where
  "step (Call c) s = call c s"
| "step (ResumeCaller i) s = resumeCaller i s"
| "step (Published i failure) s = published i failure s"
| "step (Received k msgs) s = received k msgs s"
| "step (ReceiveFailed k) s = receiveFailed k s"
| "step (Deleted k) s = deleted k s"
| "step TimerFired s = timerFired s"
| "step Cancel s = cancelWithoutCleanup s"
| "step (ResumeCancel j) s = resumeCancel j s"

fun run :: "action list \<Rightarrow> state \<Rightarrow> state" where
  "run [] s = s"
| "run (a # as) s = run as (step a s)"

text \<open>A collector invocation that is still running (suspended at one of its awaits).\<close>

fun live :: "collector \<Rightarrow> bool" where
  "live Receiving = True"
| "live Deleting = True"
| "live NotStarted = False"
| "live Exited = False"
| "live Crashed = False"

section \<open>The guard of \<open>collectGarbage\<close>\<close>

text \<open>
  \<^verbatim>\<open>
  let garbageCollectorRunning = false;

  export async function collectGarbage(services, region, accountId, Bucket, retentionInDays) {
      if (garbageCollectorRunning) { return; }
      garbageCollectorRunning = true;
      try {
          ... await new Promise(...describeLogGroups...);
          ... await new Promise(...listFunctions...);
          await Promise.all(promises);
      } finally {
          garbageCollectorRunning = false;
      }
  }
  \<close>
  The flag is a variable of the module. An invocation that finds it set returns at once.
  Otherwise the invocation sets it and works inside the \<open>try\<close> block, suspended at one
  of the awaits, until the block ends, normally or by an error (a rejected page
  request, a failed worker); \<open>finally\<close> clears the flag in both cases. What the block
  does to the cloud resources is not part of the model: its end, and whether it was an
  error, is an action of the outside world.
\<close>

datatype collection = NoCollection | Skipped | Collecting | Collected | CollectionFailed

record gcstate =
  garbageCollectorRunning :: bool
  collections :: "nat \<Rightarrow> collection"
  nextCollection :: nat

definition gc_init :: gcstate where
  "gc_init = \<lparr> garbageCollectorRunning = False,
               collections = (\<lambda>k. NoCollection), nextCollection = 0 \<rparr>"

definition collectGarbage :: "gcstate \<Rightarrow> gcstate" where
  "collectGarbage g =
     (if garbageCollectorRunning g then
        g\<lparr> nextCollection := Suc (nextCollection g),
           collections := (collections g)(nextCollection g := Skipped) \<rparr>
      else
        g\<lparr> garbageCollectorRunning := True,
           nextCollection := Suc (nextCollection g),
           collections := (collections g)(nextCollection g := Collecting) \<rparr>)"

definition collectionSettled :: "nat \<Rightarrow> bool \<Rightarrow> gcstate \<Rightarrow> gcstate" where
  "collectionSettled k ok g =
     (if collections g k = Collecting then
        g\<lparr> garbageCollectorRunning := False,
           collections := (collections g)(k := (if ok then Collected else CollectionFailed)) \<rparr>
      else g)"

datatype gcaction = CollectGarbage | CollectionSettled nat bool

fun gc_step :: "gcaction \<Rightarrow> gcstate \<Rightarrow> gcstate" where
  "gc_step CollectGarbage g = collectGarbage g"
| "gc_step (CollectionSettled k ok) g = collectionSettled k ok g"

fun gc_run :: "gcaction list \<Rightarrow> gcstate \<Rightarrow> gcstate" where
  "gc_run [] g = g"
| "gc_run (a # as) g = gc_run as (gc_step a g)"

section \<open>Notions used to state the properties of the engine\<close>

text \<open>The state a message handler stopped in, whether it returned or threw.\<close>

fun state_of :: "state + state \<Rightarrow> state" where
  "state_of (Inl s) = s"
| "state_of (Inr s) = s"

text \<open>
  \<open>settles d e\<close>: the event \<open>e\<close> is a call of \<open>resolve\<close> or \<open>reject\<close> on the deferred
  \<open>d\<close>; \<open>settle_count d tr\<close> counts these calls in a trace.
\<close>

fun settles :: "nat \<Rightarrow> event \<Rightarrow> bool" where
  "settles d (Resolve d' c) = (d = d')"
| "settles d (Reject d') = (d = d')"
| "settles d (Register c d') = False"
| "settles d (ReceiveMessage k) = False"
| "settles d (NotFound c) = False"
| "settles d (DeleteMessage h) = False"
| "settles d (CollectorExit k) = False"
| "settles d SetTimeout = False"
| "settles d (Publish c) = False"

definition settle_count :: "nat \<Rightarrow> event list \<Rightarrow> nat" where
  "settle_count d tr = length (filter (settles d) tr)"

text \<open>
  The invariants of the machine. About collectors: a running collector is the one whose
  promise is stored in \<open>resultCollectorPromise\<close>, and the numbers not yet given out
  belong to no collector.
\<close>

definition inv_collector :: "state \<Rightarrow> bool" where
  "inv_collector s \<longleftrightarrow>
     (\<forall>k. live (collectors s k) \<longrightarrow> resultCollectorPromise s = Some k)
   \<and> (\<forall>k. nextCollector s \<le> k \<longrightarrow> collectors s k = NotStarted)"

text \<open>
  About the table: no \<open>Deferred\<close> object is stored under two keys; a stored deferred has
  been created, is pending and has never been resolved or rejected; no deferred has been
  resolved or rejected twice.
\<close>

definition inv_table :: "state \<Rightarrow> bool" where
  "inv_table s \<longleftrightarrow>
     distinct (map snd (callResultPromises s))
   \<and> (\<forall>(c, d) \<in> set (callResultPromises s).
         d < nextDeferred s \<and> deferreds s d = Pending \<and> settle_count d (trace s) = 0)
   \<and> (\<forall>d. settle_count d (trace s) \<le> 1)
   \<and> (\<forall>d. nextDeferred s \<le> d \<longrightarrow> settle_count d (trace s) = 0)"

text \<open>
  About registrations: a deferred is registered once, under one CallId; what is in the
  table was registered; what was resolved was registered under the CallId of the message;
  a fulfilled deferred was resolved; a request was published only for a CallId already
  resolved; a caller waits for the deferred registered under its CallId, and a caller
  waiting for \<open>sns.publish\<close> holds the value its deferred was fulfilled with.
\<close>

definition inv_calls :: "state \<Rightarrow> bool" where
  "inv_calls s \<longleftrightarrow>
     (\<forall>c d. Register c d \<in> set (trace s) \<longrightarrow> d < nextDeferred s)
   \<and> (\<forall>c c' d. Register c d \<in> set (trace s) \<and> Register c' d \<in> set (trace s) \<longrightarrow> c = c')
   \<and> (\<forall>(c, d) \<in> set (callResultPromises s). Register c d \<in> set (trace s))
   \<and> (\<forall>c d. Resolve d c \<in> set (trace s) \<longrightarrow> Register c d \<in> set (trace s))
   \<and> (\<forall>d qr. deferreds s d = Fulfilled qr \<longrightarrow> (\<exists>c. Resolve d c \<in> set (trace s)))
   \<and> (\<forall>c. Publish c \<in> set (trace s) \<longrightarrow> (\<exists>d. Resolve d c \<in> set (trace s)))
   \<and> (\<forall>i c d. callers s i = AwaitDeferred c d \<longrightarrow> Register c d \<in> set (trace s))
   \<and> (\<forall>i c d qr. callers s i = AwaitPublish c d qr \<longrightarrow>
         deferreds s d = Fulfilled qr \<and> Resolve d c \<in> set (trace s))
   \<and> (\<forall>i. nextCaller s \<le> i \<longrightarrow> callers s i = NoCaller)"

text \<open>
  \<open>resolve_count c tr\<close> counts the calls of \<open>resolve\<close> made for a message bearing the
  CallId \<open>c\<close>, \<open>register_count c tr\<close> the registrations of \<open>c\<close> in the table.
\<close>

fun resolves :: "callid \<Rightarrow> event \<Rightarrow> bool" where
  "resolves c (Resolve d c') = (c = c')"
| "resolves c (Reject d) = False"
| "resolves c (Register c' d) = False"
| "resolves c (ReceiveMessage k) = False"
| "resolves c (NotFound c') = False"
| "resolves c (DeleteMessage h) = False"
| "resolves c (CollectorExit k) = False"
| "resolves c SetTimeout = False"
| "resolves c (Publish c') = False"

fun registers :: "callid \<Rightarrow> event \<Rightarrow> bool" where
  "registers c (Register c' d) = (c = c')"
| "registers c (Resolve d c') = False"
| "registers c (Reject d) = False"
| "registers c (ReceiveMessage k) = False"
| "registers c (NotFound c') = False"
| "registers c (DeleteMessage h) = False"
| "registers c (CollectorExit k) = False"
| "registers c SetTimeout = False"
| "registers c (Publish c') = False"

definition resolve_count :: "callid \<Rightarrow> event list \<Rightarrow> nat" where
  "resolve_count c tr = length (filter (resolves c) tr)"

definition register_count :: "callid \<Rightarrow> event list \<Rightarrow> nat" where
  "register_count c tr = length (filter (registers c) tr)"

text \<open>
  A CallId is resolved at most as often as it was registered, an entry still in the table
  counting as a resolution to come.
\<close>

definition inv_once :: "state \<Rightarrow> bool" where
  "inv_once s \<longleftrightarrow>
     (\<forall>c. resolve_count c (trace s)
            + (if c \<in> fst ` set (callResultPromises s) then 1 else 0)
          \<le> register_count c (trace s))"

text \<open>The numbers not yet given out belong to no \<open>cancelWithoutCleanup\<close> invocation.\<close>

definition inv_cancel :: "state \<Rightarrow> bool" where
  "inv_cancel s \<longleftrightarrow> (\<forall>j. nextCancel s \<le> j \<longrightarrow> cancels s j = NoCancel)"

definition inv :: "state \<Rightarrow> bool" where
  "inv s \<longleftrightarrow> inv_collector s \<and> inv_table s \<and> inv_calls s \<and> inv_once s \<and> inv_cancel s"

text \<open>
  A response message as the remote side sends it for a function that returned: the body
  parses to \<open>{ CallId: c, type: "returned", value: v }\<close>.
\<close>

definition response_message :: "callid \<Rightarrow> string \<Rightarrow> receipt \<Rightarrow> message" where
  "response_message c v h =
     \<lparr> Body = Some (Parsed \<lparr> CallId = c, rtype = ''returned'', rvalue = v \<rparr>),
       ReceiptHandle = h \<rparr>"




text \<open>
  The invariant of the garbage collector's guard: an invocation at work has the flag set,
  there is at most one, and the numbers not yet given out belong to no invocation.
\<close>

definition inv_gc :: "gcstate \<Rightarrow> bool" where
  "inv_gc g \<longleftrightarrow>
     (\<forall>k. collections g k = Collecting \<longrightarrow> garbageCollectorRunning g)
   \<and> (\<forall>k k'. collections g k = Collecting \<and> collections g k' = Collecting \<longrightarrow> k = k')
   \<and> (\<forall>k. nextCollection g \<le> k \<longrightarrow> collections g k = NoCollection)"

section \<open>The Funnel\<close>

text \<open>
  Modelled from the spec: the Funnel, that is the function \<open>throttle\<close> which
  \<open>aws-cloudify.ts\<close> imports from \<open>../throttle\<close>; its source is not among the files,
  only the test \<open>aws-throttle.test.ts\<close> that runs ten timers through a cloud function
  created with \<open>concurrency: 1\<close>. The model follows sections 3 and 4.1 of the spec. The
  state has the counter \<open>concurrencyInUse\<close>, the token bucket \<open>rateTokens\<close> and the FIFO
  \<open>admissionQueue\<close> of waiting operations. A call holds a counting admission slot; if all
  slots are in use it waits in FIFO admission order until one frees; no slot limit means
  unbounded concurrency. A call consumes one token before executing; if none is
  available it waits for the next refill, which adds a token up to the capacity \<open>burst\<close>.
  A call must pass both gates before it executes. Operations are numbered in the order
  of their submission. The history records, in the order in which they happen, the start
  and the end of every execution; the place of an event in the history is its timestamp.
\<close>

datatype fevent = Start nat | End nat

record funnelConfig =
  concurrency :: "nat option"
  burst :: nat

record funnelState =
  concurrencyInUse :: nat
  rateTokens :: nat
  admissionQueue :: "nat list"
  submitted :: nat
  history :: "fevent list"

text \<open>
  Modelled from the spec: the initial state of a Funnel (nothing executing, a full
  bucket, nobody waiting), the test for a free slot (no slot limit means unbounded
  concurrency), and admission, which \<open>throttle\<close> would do: as long as the operation at the
  head of the FIFO queue finds a free slot and a token, it takes both and starts
  executing.
\<close>

definition funnel_init :: "funnelConfig \<Rightarrow> funnelState" where
  "funnel_init cfg =
     \<lparr> concurrencyInUse = 0, rateTokens = burst cfg, admissionQueue = [],
       submitted = 0, history = [] \<rparr>"

definition slot_free :: "funnelConfig \<Rightarrow> funnelState \<Rightarrow> bool" where
  "slot_free cfg f =
     (case concurrency cfg of None \<Rightarrow> True | Some n \<Rightarrow> concurrencyInUse f < n)"

fun admit :: "funnelConfig \<Rightarrow> nat list \<Rightarrow> funnelState \<Rightarrow> funnelState" where
  "admit cfg [] f = f\<lparr> admissionQueue := [] \<rparr>"
| "admit cfg (job # waiting) f =
     (if slot_free cfg f \<and> 0 < rateTokens f then
        admit cfg waiting
          (f\<lparr> concurrencyInUse := Suc (concurrencyInUse f),
              rateTokens := rateTokens f - 1,
              history := history f @ [Start job] \<rparr>)
      else f\<lparr> admissionQueue := job # waiting \<rparr>)"

text \<open>
  Modelled from the spec: the operations executing simultaneously after a history, those
  started and not yet ended (the spec's \<open>concurrencyInUse\<close> counts them).
\<close>

fun apply_event :: "nat list \<Rightarrow> fevent \<Rightarrow> nat list" where
  "apply_event r (Start job) = r @ [job]"
| "apply_event r (End job) = remove1 job r"

definition executing :: "fevent list \<Rightarrow> nat list" where
  "executing h = foldl apply_event [] h"

text \<open>
  Modelled from the spec: what \<open>throttle\<close> would do when a new operation is submitted (it
  joins the queue), when an executing operation completes (it frees its slot) and when
  the bucket is refilled (one token more, up to \<open>burst\<close>). Each time the queue is served.
\<close>

definition submit :: "funnelConfig \<Rightarrow> funnelState \<Rightarrow> funnelState" where
  "submit cfg f =
     admit cfg (admissionQueue f @ [submitted f]) (f\<lparr> submitted := Suc (submitted f) \<rparr>)"

definition complete :: "funnelConfig \<Rightarrow> nat \<Rightarrow> funnelState \<Rightarrow> funnelState" where
  "complete cfg job f =
     (if job \<in> set (executing (history f)) then
        admit cfg (admissionQueue f)
          (f\<lparr> concurrencyInUse := concurrencyInUse f - 1,
              history := history f @ [End job] \<rparr>)
      else f)"

definition refill :: "funnelConfig \<Rightarrow> funnelState \<Rightarrow> funnelState" where
  "refill cfg f =
     admit cfg (admissionQueue f) (f\<lparr> rateTokens := min (burst cfg) (Suc (rateTokens f)) \<rparr>)"

datatype faction = Submit | Complete nat | Refill

fun funnel_step :: "funnelConfig \<Rightarrow> faction \<Rightarrow> funnelState \<Rightarrow> funnelState" where
  "funnel_step cfg Submit f = submit cfg f"
| "funnel_step cfg (Complete job) f = complete cfg job f"
| "funnel_step cfg Refill f = refill cfg f"

fun funnel_run :: "funnelConfig \<Rightarrow> faction list \<Rightarrow> funnelState \<Rightarrow> funnelState" where
  "funnel_run cfg [] f = f"
| "funnel_run cfg (a # as) f = funnel_run cfg as (funnel_step cfg a f)"

text \<open>
  The check of the test \<open>aws-throttle.test.ts\<close> on the timings the executions report:
  \<^verbatim>\<open>
  results.sort(({ start: a }, { start: b }) => a - b);
  let lastEnd = 0;
  // Executions should not overlap in their timestamps.
  for (const timing of results) {
      t.true(timing.start > lastEnd);
      lastEnd = timing.end;
  }
  \<close>
  \<open>no_overlap lastEnd results\<close> is the loop (true when every assertion holds), and
  \<open>throttle_test\<close> the check with the sorting before it.
\<close>

fun no_overlap :: "int \<Rightarrow> (int \<times> int) list \<Rightarrow> bool" where
  "no_overlap lastEnd [] = True"
| "no_overlap lastEnd ((start, end) # rest) = (lastEnd < start \<and> no_overlap end rest)"

definition throttle_test :: "(int \<times> int) list \<Rightarrow> bool" where
  "throttle_test results = no_overlap 0 (sort_key fst results)"

text \<open>
  Modelled from the spec: the timings of the executions that have completed in a history,
  as pairs of start and end timestamp. The event at the head of the list has the
  timestamp \<open>t\<close>; timestamps count from 1. \<open>end_of job t h\<close> is the timestamp of the first
  end of \<open>job\<close> in \<open>h\<close>.
\<close>

fun end_of :: "nat \<Rightarrow> nat \<Rightarrow> fevent list \<Rightarrow> nat option" where
  "end_of job t [] = None"
| "end_of job t (e # h) = (if e = End job then Some t else end_of job (Suc t) h)"

fun timings :: "nat \<Rightarrow> fevent list \<Rightarrow> (int \<times> int) list" where
  "timings t [] = []"
| "timings t (Start job # h) =
     (case end_of job (Suc t) h of
        Some t' \<Rightarrow> (int t, int t') # timings (Suc t) h
      | None \<Rightarrow> timings (Suc t) h)"
| "timings t (End job # h) = timings (Suc t) h"

text \<open>
  A history in which executions follow one another: each start is followed at once by
  the end of the same operation, except for a last operation still executing.
\<close>

fun alternating :: "fevent list \<Rightarrow> bool" where
  "alternating [] = True"
| "alternating [Start a] = True"
| "alternating (Start a # End b # h) = (a = b \<and> alternating h)"
| "alternating (Start a # Start b # h) = False"
| "alternating (End b # h) = False"

text \<open>
  The invariant of a funnel with \<open>n\<close> slots: the counter is the number of executing
  operations, and after no prefix of the history were more than \<open>n\<close> executing.
\<close>

definition inv_funnel :: "nat \<Rightarrow> funnelState \<Rightarrow> bool" where
  "inv_funnel n f \<longleftrightarrow>
     concurrencyInUse f = length (executing (history f))
   \<and> (\<forall>i. length (executing (take i (history f))) \<le> n)"

section \<open>Properties of \<open>pollAWSRequest\<close>\<close>

lemma pollAWSRequest_loop_delays:
  assumes "pollAWSRequest_loop truthy n fn i duration k slept = (ds, r)"
    and "1 \<le> i" and "duration = min (1000 * i) 5000" and "int k = i - 1"
    and "slept = map (\<lambda>j. min (1000 * (int j + 1)) 5000) [0..<k]"
  shows "ds = map (\<lambda>j. min (1000 * (int j + 1)) 5000) [0..<length ds]"
  using assms
proof (induction truthy n fn i duration k slept rule: pollAWSRequest_loop.induct)
  case (1 truthy n fn i duration k slept)
  have next_duration:
    "(if duration < 5000 then duration + 1000 else duration) = min (1000 * (i + 1)) 5000"
    using "1.prems"(2,3) by auto
  have next_slept:
    "slept @ [duration] = map (\<lambda>j. min (1000 * (int j + 1)) 5000) [0..<Suc k]"
    using "1.prems"(3,4,5) by simp
  have next_k: "int (Suc k) = (i + 1) - 1"
    using "1.prems"(4) by simp
  have here: "slept = map (\<lambda>j. min (1000 * (int j + 1)) 5000) [0..<length slept]"
    using "1.prems"(5) by simp
  show ?case
  proof (cases "i < n")
    case False
    then have "ds = slept"
      using "1.prems"(1) by (simp split: attempt.splits)
    then show ?thesis using here by simp
  next
    case True
    show ?thesis
    proof (cases "fn k")
      case (Fails e)
      have "pollAWSRequest_loop truthy n fn (i + 1)
              (if duration < 5000 then duration + 1000 else duration)
              (Suc k) (slept @ [duration]) = (ds, r)"
        using "1.prems"(1) True Fails by simp
      from "1.IH"(1) [OF True Fails this _ next_duration next_k next_slept]
      show ?thesis using "1.prems"(2) by simp
    next
      case (Yields v)
      show ?thesis
      proof (cases "truthy v")
        case True
        then have "ds = slept"
          using "1.prems"(1) \<open>i < n\<close> Yields by simp
        then show ?thesis using here by simp
      next
        case False
        have "pollAWSRequest_loop truthy n fn (i + 1)
                (if duration < 5000 then duration + 1000 else duration)
                (Suc k) (slept @ [duration]) = (ds, r)"
          using "1.prems"(1) \<open>i < n\<close> Yields False by simp
        from "1.IH"(2) [OF \<open>i < n\<close> Yields False this _ next_duration next_k next_slept]
        show ?thesis using "1.prems"(2) by simp
      qed
    qed
  qed
qed

lemma pollAWSRequest_loop_exhausted:
  assumes "\<forall>j. k \<le> j \<and> int j < n - 1 \<longrightarrow> \<not> accepted truthy (fn j)"
    and "int k = i - 1" and "i \<le> n"
    and "fn (nat (n - 1)) = Fails e"
  shows "snd (pollAWSRequest_loop truthy n fn i duration k slept) = Inl e
       \<and> length (fst (pollAWSRequest_loop truthy n fn i duration k slept))
           = length slept + nat (n - i)"
  using assms
proof (induction truthy n fn i duration k slept rule: pollAWSRequest_loop.induct)
  case (1 truthy n fn i duration k slept)
  show ?case
  proof (cases "i < n")
    case False
    then have "i = n" using "1.prems"(3) by simp
    then have "nat (n - 1) = k" using "1.prems"(2) by simp
    then show ?thesis
      using False "1.prems"(4) \<open>i = n\<close> by (simp split: attempt.splits)
  next
    case True
    have notacc: "\<not> accepted truthy (fn k)"
      using "1.prems"(1,2) True by simp
    have rest: "\<forall>j. Suc k \<le> j \<and> int j < n - 1 \<longrightarrow> \<not> accepted truthy (fn j)"
      using "1.prems"(1) by simp
    have next_k: "int (Suc k) = (i + 1) - 1"
      using "1.prems"(2) by simp
    have le: "i + 1 \<le> n" using True by simp
    have len: "length (slept @ [duration]) + nat (n - (i + 1)) = length slept + nat (n - i)"
      using True by simp
    show ?thesis
    proof (cases "fn k")
      case (Fails e')
      from "1.IH"(1) [OF True Fails rest next_k le "1.prems"(4)]
      show ?thesis using True Fails len by simp
    next
      case (Yields v)
      then have f: "\<not> truthy v" using notacc by simp
      from "1.IH"(2) [OF True Yields f rest next_k le "1.prems"(4)]
      show ?thesis using True Yields f len by simp
    qed
  qed
qed

lemma sorted_backoff_schedule:
  "sorted (map (\<lambda>j. min (1000 * (int j + 1)) 5000) [0..<m])"
  by (auto simp: sorted_iff_nth_mono)

text \<open>
  Claim C8. The delays \<open>pollAWSRequest\<close> waits between attempts are 1000, 2000, 3000,
  4000, 5000, 5000, ... milliseconds: the j-th delay (from 0) is \<open>min (1000 * (j + 1)) 5000\<close>,
  so the delays never decrease, start at 1000, grow by 1000 and stop growing at 5000.
  When none of the first \<open>n - 1\<close> requests is accepted and the last, the n-th, fails with
  the error \<open>e\<close>, all \<open>n - 1\<close> delays were waited and the caller gets exactly \<open>e\<close>.
\<close>

theorem pollAWSRequest_backoff_and_final_error:
  assumes "pollAWSRequest truthy n fn = (ds, r)"
  shows "ds = map (\<lambda>j. min (1000 * (int j + 1)) 5000) [0..<length ds]
       \<and> sorted ds
       \<and> (\<forall>d \<in> set ds. 1000 \<le> d \<and> d \<le> 5000)
       \<and> (1 \<le> n \<and> (\<forall>j. int j < n - 1 \<longrightarrow> \<not> accepted truthy (fn j))
            \<and> fn (nat (n - 1)) = Fails e
          \<longrightarrow> r = Inl e \<and> int (length ds) = n - 1)"
proof -
  have sched: "ds = map (\<lambda>j. min (1000 * (int j + 1)) 5000) [0..<length ds]"
    using pollAWSRequest_loop_delays [of truthy n fn 1 1000 0 "[]" ds r] assms
    by (simp add: pollAWSRequest_def)
  have srt: "sorted ds"
    using sched sorted_backoff_schedule [of "length ds"] by simp
  have bounds: "\<forall>d \<in> set ds. 1000 \<le> d \<and> d \<le> 5000"
  proof
    fix d assume "d \<in> set ds"
    then have "d \<in> set (map (\<lambda>j. min (1000 * (int j + 1)) 5000) [0..<length ds])"
      using sched by simp
    then show "1000 \<le> d \<and> d \<le> 5000" by auto
  qed
  have final: "1 \<le> n \<and> (\<forall>j. int j < n - 1 \<longrightarrow> \<not> accepted truthy (fn j))
            \<and> fn (nat (n - 1)) = Fails e
          \<longrightarrow> r = Inl e \<and> int (length ds) = n - 1"
  proof
    assume h: "1 \<le> n \<and> (\<forall>j. int j < n - 1 \<longrightarrow> \<not> accepted truthy (fn j))
            \<and> fn (nat (n - 1)) = Fails e"
    then have "snd (pollAWSRequest_loop truthy n fn 1 1000 0 []) = Inl e
       \<and> length (fst (pollAWSRequest_loop truthy n fn 1 1000 0 [])) = length ([]::int list) + nat (n - 1)"
      by (intro pollAWSRequest_loop_exhausted) auto
    then show "r = Inl e \<and> int (length ds) = n - 1"
      using assms h by (simp add: pollAWSRequest_def)
  qed
  show ?thesis using sched srt bounds final by blast
qed

theorem pollAWSRequest_backoff_and_final_error_witness:
  "pollAWSRequest (\<lambda>r::string. True) 3 (\<lambda>k. Fails ''Throttled'')
     = ([1000, 2000], Inl ''Throttled'')
   \<and> sorted [1000, 2000 :: int]"
proof -
  have r: "pollAWSRequest (\<lambda>r::string. True) 3 (\<lambda>k. Fails ''Throttled'')
             = ([1000, 2000], Inl ''Throttled'')"
    by code_simp
  from pollAWSRequest_backoff_and_final_error [OF r, of "''Throttled''"]
  show ?thesis using r by simp
qed

section \<open>Lemmas about the engine\<close>

subsection \<open>Loops over messages and over table entries\<close>

lemma handleMessages_preserves:
  assumes "P s" and "\<And>s m. P s \<Longrightarrow> P (state_of (handleMessage raw s m))"
  shows "P (state_of (handleMessages raw s ms))"
  using assms(1)
proof (induction ms arbitrary: s)
  case Nil
  then show ?case by simp
next
  case (Cons m ms)
  have step: "P (state_of (handleMessage raw s m))" using Cons.prems assms(2) by blast
  show ?case
  proof (cases "handleMessage raw s m")
    case (Inl s')
    then show ?thesis using step by simp
  next
    case (Inr s')
    then show ?thesis using step Cons.IH [of s'] by simp
  qed
qed

lemma handleMessages_field:
  assumes "\<And>s m. f (state_of (handleMessage raw s m)) = f s"
  shows "f (state_of (handleMessages raw s ms)) = f s"
  using handleMessages_preserves [of "\<lambda>t. f t = f s" s raw ms] assms by simp

lemma rejectAll_preserves:
  assumes "P s"
    and "\<And>s d. P s \<Longrightarrow> P (s\<lparr> deferreds := (deferreds s)(d := reject (deferreds s d) cancelled),
                                 trace := trace s @ [Reject d] \<rparr>)"
  shows "P (rejectAll tbl s)"
  using assms(1)
proof (induction tbl arbitrary: s)
  case Nil
  then show ?case by simp
next
  case (Cons p tbl)
  obtain key d where p: "p = (key, d)" by (cases p)
  show ?case using Cons.prems assms(2) [of s d] Cons.IH p by simp
qed

lemma received_alt:
  "received k msgs s =
     (if collectors s k = Receiving then
        (state_of (handleMessages msgs s msgs))
          \<lparr> collectors := (collectors (state_of (handleMessages msgs s msgs)))
               (k := (case handleMessages msgs s msgs of Inr t \<Rightarrow> Deleting | Inl t \<Rightarrow> Crashed)) \<rparr>
      else s)"
  by (cases "handleMessages msgs s msgs") (simp_all add: received_def)

subsection \<open>What each operation leaves unchanged\<close>

lemma handleMessage_frame [simp]:
  "resultCollectorPromise (state_of (handleMessage raw s m)) = resultCollectorPromise s"
  "nextDeferred (state_of (handleMessage raw s m)) = nextDeferred s"
  "collectors (state_of (handleMessage raw s m)) = collectors s"
  "nextCollector (state_of (handleMessage raw s m)) = nextCollector s"
  "callers (state_of (handleMessage raw s m)) = callers s"
  "nextCaller (state_of (handleMessage raw s m)) = nextCaller s"
  "cancels (state_of (handleMessage raw s m)) = cancels s"
  "nextCancel (state_of (handleMessage raw s m)) = nextCancel s"
  "timers (state_of (handleMessage raw s m)) = timers s"
  by (simp_all add: handleMessage_def Let_def split: option.splits body.splits)

lemma handleMessages_frame [simp]:
  "resultCollectorPromise (state_of (handleMessages raw s ms)) = resultCollectorPromise s"
  "nextDeferred (state_of (handleMessages raw s ms)) = nextDeferred s"
  "collectors (state_of (handleMessages raw s ms)) = collectors s"
  "nextCollector (state_of (handleMessages raw s ms)) = nextCollector s"
  "callers (state_of (handleMessages raw s ms)) = callers s"
  "nextCaller (state_of (handleMessages raw s ms)) = nextCaller s"
  "cancels (state_of (handleMessages raw s ms)) = cancels s"
  "nextCancel (state_of (handleMessages raw s ms)) = nextCancel s"
  "timers (state_of (handleMessages raw s ms)) = timers s"
  by (rule handleMessages_field, simp)+

lemma rejectAll_frame [simp]:
  "callResultPromises (rejectAll tbl s) = callResultPromises s"
  "resultCollectorPromise (rejectAll tbl s) = resultCollectorPromise s"
  "nextDeferred (rejectAll tbl s) = nextDeferred s"
  "collectors (rejectAll tbl s) = collectors s"
  "nextCollector (rejectAll tbl s) = nextCollector s"
  "callers (rejectAll tbl s) = callers s"
  "nextCaller (rejectAll tbl s) = nextCaller s"
  "cancels (rejectAll tbl s) = cancels s"
  "nextCancel (rejectAll tbl s) = nextCancel s"
  "timers (rejectAll tbl s) = timers s"
  by (induction tbl s rule: rejectAll.induct) simp_all

lemma loop_test_frame [simp]:
  "callResultPromises (loop_test k s) = callResultPromises s"
  "deferreds (loop_test k s) = deferreds s"
  "nextDeferred (loop_test k s) = nextDeferred s"
  "nextCollector (loop_test k s) = nextCollector s"
  "callers (loop_test k s) = callers s"
  "nextCaller (loop_test k s) = nextCaller s"
  "cancels (loop_test k s) = cancels s"
  "nextCancel (loop_test k s) = nextCancel s"
  by (simp_all add: loop_test_def)

lemma startResultCollectorIfNeeded_frame [simp]:
  "callResultPromises (startResultCollectorIfNeeded s) = callResultPromises s"
  "deferreds (startResultCollectorIfNeeded s) = deferreds s"
  "nextDeferred (startResultCollectorIfNeeded s) = nextDeferred s"
  "callers (startResultCollectorIfNeeded s) = callers s"
  "nextCaller (startResultCollectorIfNeeded s) = nextCaller s"
  "cancels (startResultCollectorIfNeeded s) = cancels s"
  "nextCancel (startResultCollectorIfNeeded s) = nextCancel s"
  by (simp_all add: startResultCollectorIfNeeded_def Let_def)

subsection \<open>The collector invariant\<close>

lemma inv_collector_loop_test:
  assumes "inv_collector s" and "live (collectors s k)"
  shows "inv_collector (loop_test k s)"
proof -
  have prom: "resultCollectorPromise s = Some k"
    using assms by (simp add: inv_collector_def)
  have uniq: "k' = k" if "live (collectors s k')" for k'
  proof -
    have "resultCollectorPromise s = Some k'" using assms(1) that by (simp add: inv_collector_def)
    then show ?thesis using prom by simp
  qed
  have fresh: "collectors s k' = NotStarted" if "nextCollector s \<le> k'" for k'
    using assms(1) that by (simp add: inv_collector_def)
  have nxt: "k < nextCollector s"
  proof (rule ccontr)
    assume "\<not> k < nextCollector s"
    then have "collectors s k = NotStarted" using fresh by simp
    then show False using assms(2) by simp
  qed
  show ?thesis
  proof (cases "isEmpty (callResultPromises s)")
    case True
    have a: "\<not> live (collectors (loop_test k s) k')" for k'
      using True uniq [of k'] by (cases "k' = k") (auto simp: loop_test_def)
    have b: "collectors (loop_test k s) k' = NotStarted" if "nextCollector (loop_test k s) \<le> k'" for k'
      using True fresh [of k'] that nxt by (simp add: loop_test_def)
    show ?thesis unfolding inv_collector_def using a b by blast
  next
    case False
    have a: "resultCollectorPromise (loop_test k s) = Some k'" if "live (collectors (loop_test k s) k')" for k'
    proof (cases "k' = k")
      case True
      then show ?thesis using False prom by (simp add: loop_test_def)
    next
      case ne: False
      then have "live (collectors s k')" using that False by (simp add: loop_test_def)
      then show ?thesis using uniq ne by blast
    qed
    have b: "collectors (loop_test k s) k' = NotStarted" if "nextCollector (loop_test k s) \<le> k'" for k'
      using False fresh [of k'] that nxt by (simp add: loop_test_def)
    show ?thesis unfolding inv_collector_def using a b by blast
  qed
qed


lemma start_started:
  assumes "\<not> isEmpty (callResultPromises s)" and "resultCollectorPromise s = None"
  shows "startResultCollectorIfNeeded s =
           s\<lparr> nextCollector := Suc (nextCollector s),
              collectors := (collectors s)(nextCollector s := Receiving),
              trace := trace s @ [ReceiveMessage (nextCollector s)],
              resultCollectorPromise := Some (nextCollector s) \<rparr>"
  using assms by (simp add: startResultCollectorIfNeeded_def loop_test_def Let_def)

lemma start_not_started:
  assumes "isEmpty (callResultPromises s) \<or> resultCollectorPromise s \<noteq> None"
  shows "startResultCollectorIfNeeded s = s"
  using assms by (auto simp add: startResultCollectorIfNeeded_def)

lemma inv_collector_start:
  assumes "inv_collector s"
  shows "inv_collector (startResultCollectorIfNeeded s)"
proof (cases "\<not> isEmpty (callResultPromises s) \<and> resultCollectorPromise s = None")
  case False
  then show ?thesis using assms start_not_started [of s] by auto
next
  case True
  have nolive: "\<not> live (collectors s k)" for k
    using assms True by (auto simp: inv_collector_def)
  have fresh: "collectors s k = NotStarted" if "nextCollector s \<le> k" for k
    using assms that by (simp add: inv_collector_def)
  show ?thesis
    unfolding inv_collector_def using True nolive fresh
    by (simp add: start_started)
qed

lemma inv_collector_fields:
  assumes "inv_collector s"
    and "collectors t = collectors s" and "nextCollector t = nextCollector s"
    and "resultCollectorPromise t = resultCollectorPromise s"
  shows "inv_collector t"
  using assms by (simp add: inv_collector_def)

lemma inv_collector_step:
  assumes "inv_collector s"
  shows "inv_collector (step a s)"
proof (cases a)
  case (Call c)
  have "inv_collector (s\<lparr> nextDeferred := Suc (nextDeferred s),
                  deferreds := (deferreds s)(nextDeferred s := Pending),
                  callResultPromises := AList.update c (nextDeferred s) (callResultPromises s),
                  trace := trace s @ [Register c (nextDeferred s)] \<rparr>)"
    using assms by (simp add: inv_collector_def)
  from inv_collector_start [OF this]
  show ?thesis using Call
    by (simp add: call_def enqueueCallRequest_def Let_def inv_collector_def)
next
  case (ResumeCaller i)
  have "inv_collector (resumeCaller i s)"
    by (rule inv_collector_fields [OF assms])
       (simp_all add: resumeCaller_def split: caller.splits promise.splits)
  then show ?thesis using ResumeCaller by simp
next
  case (Published i failure)
  have "inv_collector (published i failure s)"
    by (rule inv_collector_fields [OF assms])
       (simp_all add: published_def split: caller.splits option.splits)
  then show ?thesis using Published by simp
next
  case (Received k msgs)
  show ?thesis
  proof (cases "collectors s k = Receiving")
    case False
    then show ?thesis using Received assms by (simp add: received_def)
  next
    case True
    have prom: "resultCollectorPromise s = Some k"
      using assms True by (simp add: inv_collector_def)
    have fresh: "collectors s k' = NotStarted" if "nextCollector s \<le> k'" for k'
      using assms that by (simp add: inv_collector_def)
    have lv: "resultCollectorPromise s = Some k'" if "live (collectors s k')" for k'
      using assms that by (simp add: inv_collector_def)
    have nxt: "k < nextCollector s"
      using fresh [of k] True by (cases "k < nextCollector s") auto
    show ?thesis
      unfolding inv_collector_def using Received True prom fresh lv nxt
      by (simp add: received_alt)
  qed
next
  case (ReceiveFailed k)
  show ?thesis
  proof (cases "collectors s k = Receiving")
    case False
    then show ?thesis using ReceiveFailed assms by (simp add: receiveFailed_def)
  next
    case True
    have fresh: "collectors s k' = NotStarted" if "nextCollector s \<le> k'" for k'
      using assms that by (simp add: inv_collector_def)
    have lv: "resultCollectorPromise s = Some k'" if "live (collectors s k')" for k'
      using assms that by (simp add: inv_collector_def)
    have nxt: "k < nextCollector s"
      using fresh [of k] True by (cases "k < nextCollector s") auto
    show ?thesis
      unfolding inv_collector_def using ReceiveFailed True fresh lv nxt
      by (simp add: receiveFailed_def)
  qed
next
  case (Deleted k)
  then show ?thesis using assms inv_collector_loop_test [of s k]
    by (simp add: deleted_def)
next
  case TimerFired
  have "inv_collector (s\<lparr> timers := timers s - 1 \<rparr>)"
    using assms by (simp add: inv_collector_def)
  from inv_collector_start [OF this]
  show ?thesis using TimerFired assms by (simp add: timerFired_def)
next
  case Cancel
  have "inv_collector (cancelWithoutCleanup s)"
    by (rule inv_collector_fields [OF assms])
       (simp_all add: cancelWithoutCleanup_def Let_def)
  then show ?thesis using Cancel by simp
next
  case (ResumeCancel j)
  have "inv_collector (resumeCancel j s)"
    by (rule inv_collector_fields [OF assms])
       (simp_all add: resumeCancel_def split: cancel.splits collector.splits)
  then show ?thesis using ResumeCancel by simp
qed


subsection \<open>Association lists\<close>

lemma set_update_subset: "set (AList.update c d al) \<subseteq> insert (c, d) (set al)"
  by (induction al) auto

lemma distinct_snd_update:
  assumes "distinct (map snd al)" and "d \<notin> snd ` set al"
  shows "distinct (map snd (AList.update c d al))"
  using assms
proof (induction al)
  case Nil
  then show ?case by simp
next
  case (Cons p al)
  have sub: "snd ` set (AList.update c d al) \<subseteq> insert d (snd ` set al)"
    using set_update_subset [of c d al] by force
  show ?case
  proof (cases "fst p = c")
    case True
    then show ?thesis using Cons.prems by simp
  next
    case False
    have "snd p \<notin> snd ` set (AList.update c d al)"
      using sub Cons.prems by auto
    then show ?thesis using False Cons by simp
  qed
qed

lemma set_delete: "set (AList.delete c al) = {p \<in> set al. fst p \<noteq> c}"
  by (induction al) auto

lemma distinct_snd_delete:
  "distinct (map snd al) \<Longrightarrow> distinct (map snd (AList.delete c al))"
  by (induction al) (auto simp: set_delete)

lemma distinct_snd_unique:
  assumes "distinct (map snd al)" and "(c, d) \<in> set al" and "(c', d) \<in> set al"
  shows "c' = c"
proof -
  have "inj_on snd (set al)" using assms(1) by (simp add: distinct_map)
  from inj_onD [OF this, of "(c, d)" "(c', d)"] assms(2,3)
  show ?thesis by simp
qed

subsection \<open>The table invariant\<close>

lemma settle_count_simps [simp]:
  "settle_count d [] = 0"
  "settle_count d (tr @ tr') = settle_count d tr + settle_count d tr'"
  "settle_count d (e # tr) = (if settles d e then 1 else 0) + settle_count d tr"
  by (simp_all add: settle_count_def)

lemma inv_table_fields:
  assumes "inv_table s"
    and "callResultPromises t = callResultPromises s" and "deferreds t = deferreds s"
    and "nextDeferred t = nextDeferred s"
    and "\<And>d. settle_count d (trace t) = settle_count d (trace s)"
  shows "inv_table t"
  using assms by (simp add: inv_table_def)

lemma settle_count_loop_test [simp]:
  "settle_count d (trace (loop_test k s)) = settle_count d (trace s)"
  by (simp add: loop_test_def)

lemma settle_count_start [simp]:
  "settle_count d (trace (startResultCollectorIfNeeded s)) = settle_count d (trace s)"
  by (simp add: startResultCollectorIfNeeded_def Let_def)

lemma inv_table_handleMessage:
  assumes "inv_table s"
  shows "inv_table (state_of (handleMessage raw s m))"
proof (cases "Body m")
  case None
  have "inv_table (s\<lparr> trace := trace s @ [DeleteMessage (ReceiptHandle m)] \<rparr>)"
    by (rule inv_table_fields [OF assms]) simp_all
  then show ?thesis using None by (simp add: handleMessage_def)
next
  case (Some b)
  show ?thesis
  proof (cases b)
    case Unparsable
    then show ?thesis using Some assms by (simp add: handleMessage_def)
  next
    case (Parsed ret)
    define c where "c = CallId ret"
    have dist: "distinct (map snd (callResultPromises s))"
      and ent: "\<And>c' d'. (c', d') \<in> set (callResultPromises s) \<Longrightarrow>
                  d' < nextDeferred s \<and> deferreds s d' = Pending \<and> settle_count d' (trace s) = 0"
      and once: "\<And>d. settle_count d (trace s) \<le> 1"
      and fresh: "\<And>d. nextDeferred s \<le> d \<Longrightarrow> settle_count d (trace s) = 0"
      using assms by (auto simp: inv_table_def)
    show ?thesis
    proof (cases "map_of (callResultPromises s) c")
      case None
      show ?thesis
      proof (cases "prototype_member c")
        case True
        have "c \<notin> fst ` set (callResultPromises s)"
          using None by (simp add: map_of_eq_None_iff)
        then have "state_of (handleMessage raw s m) = s"
          using Some Parsed None True by (simp add: handleMessage_def c_def Let_def)
        then show ?thesis using assms by simp
      next
        case False
        have eq: "state_of (handleMessage raw s m) =
                    s\<lparr> callResultPromises := AList.delete c (callResultPromises s),
                       trace := trace s @ [NotFound c, DeleteMessage (ReceiptHandle m)] \<rparr>"
          using Some Parsed None False by (simp add: handleMessage_def c_def Let_def)
        show ?thesis
          unfolding eq inv_table_def
          using dist ent once fresh by (auto simp: distinct_snd_delete set_delete)
      qed
    next
      case found: (Some d)
      have mem: "(c, d) \<in> set (callResultPromises s)"
        using found by (rule map_of_SomeD)
      have eq: "state_of (handleMessage raw s m) =
                  s\<lparr> callResultPromises := AList.delete c (callResultPromises s),
                     deferreds := (deferreds s)
                       (d := resolve (deferreds s d) \<lparr> returned = ret, rawResponse = raw \<rparr>),
                     trace := trace s @ [Resolve d c, DeleteMessage (ReceiptHandle m)] \<rparr>"
        using Some Parsed found by (simp add: handleMessage_def c_def Let_def)
      define t where "t = state_of (handleMessage raw s m)"
      have tbl: "callResultPromises t = AList.delete c (callResultPromises s)"
        and dfs: "deferreds t = (deferreds s)
                       (d := resolve (deferreds s d) \<lparr> returned = ret, rawResponse = raw \<rparr>)"
        and nxt: "nextDeferred t = nextDeferred s"
        and cnt: "\<And>d'. settle_count d' (trace t) = settle_count d' (trace s) + (if d' = d then 1 else 0)"
        unfolding t_def eq by simp_all
      have other: "d' \<noteq> d" if "(c', d') \<in> set (callResultPromises t)" for c' d'
      proof
        assume "d' = d"
        then have "(c', d) \<in> set (callResultPromises s)" and "c' \<noteq> c"
          using that tbl by (auto simp: set_delete)
        then show False using distinct_snd_unique [OF dist mem] by blast
      qed
      have d0: "settle_count d (trace s) = 0" and dlt: "d < nextDeferred s"
        using ent [OF mem] by auto
      have p1: "distinct (map snd (callResultPromises t))"
        unfolding tbl using dist by (rule distinct_snd_delete)
      have p2: "\<forall>(c', d') \<in> set (callResultPromises t).
                  d' < nextDeferred t \<and> deferreds t d' = Pending \<and> settle_count d' (trace t) = 0"
      proof (clarify)
        fix c' d' assume in_t: "(c', d') \<in> set (callResultPromises t)"
        then have "(c', d') \<in> set (callResultPromises s)" using tbl by (simp add: set_delete)
        then show "d' < nextDeferred t \<and> deferreds t d' = Pending \<and> settle_count d' (trace t) = 0"
          using ent [of c' d'] other [OF in_t] by (simp add: nxt dfs cnt)
      qed
      have p3: "\<forall>d'. settle_count d' (trace t) \<le> 1"
      proof
        fix d' show "settle_count d' (trace t) \<le> 1"
          using once [of d'] d0 by (cases "d' = d") (simp_all add: cnt)
      qed
      have p4: "\<forall>d'. nextDeferred t \<le> d' \<longrightarrow> settle_count d' (trace t) = 0"
        using fresh dlt by (auto simp: cnt nxt)
      show ?thesis
        unfolding inv_table_def t_def [symmetric] using p1 p2 p3 p4 by blast
    qed
  qed
qed


lemma inv_table_rejectAll:
  assumes "callResultPromises s = []" and "distinct (map snd tbl)"
    and "\<forall>(c, d) \<in> set tbl. d < nextDeferred s \<and> settle_count d (trace s) = 0"
    and "\<forall>d. settle_count d (trace s) \<le> 1"
    and "\<forall>d. nextDeferred s \<le> d \<longrightarrow> settle_count d (trace s) = 0"
  shows "inv_table (rejectAll tbl s)"
  using assms
proof (induction tbl arbitrary: s)
  case Nil
  then show ?case by (simp add: inv_table_def)
next
  case (Cons p tbl)
  obtain key d where p: "p = (key, d)" by (cases p)
  define t where "t = s\<lparr> deferreds := (deferreds s)(d := reject (deferreds s d) cancelled),
                         trace := trace s @ [Reject d] \<rparr>"
  have cnt: "settle_count d' (trace t) = settle_count d' (trace s) + (if d' = d then 1 else 0)" for d'
    by (simp add: t_def)
  have d0: "settle_count d (trace s) = 0" and dlt: "d < nextDeferred s"
    using Cons.prems(3) p by auto
  have notin: "d \<notin> snd ` set tbl" using Cons.prems(2) p by simp
  have a1: "callResultPromises t = []" using Cons.prems(1) by (simp add: t_def)
  have a2: "distinct (map snd tbl)" using Cons.prems(2) by simp
  have a3: "\<forall>(c', d') \<in> set tbl. d' < nextDeferred t \<and> settle_count d' (trace t) = 0"
  proof (clarify)
    fix c' d' assume m: "(c', d') \<in> set tbl"
    then have "d' \<noteq> d" using notin by force
    moreover have "d' < nextDeferred s \<and> settle_count d' (trace s) = 0"
      using Cons.prems(3) m by auto
    ultimately show "d' < nextDeferred t \<and> settle_count d' (trace t) = 0"
      by (simp add: cnt) (simp add: t_def)
  qed
  have a4: "\<forall>d'. settle_count d' (trace t) \<le> 1"
  proof
    fix d' show "settle_count d' (trace t) \<le> 1"
      using Cons.prems(4) d0 by (cases "d' = d") (simp_all add: cnt)
  qed
  have a5: "\<forall>d'. nextDeferred t \<le> d' \<longrightarrow> settle_count d' (trace t) = 0"
  proof (intro allI impI)
    fix d' assume "nextDeferred t \<le> d'"
    then have "nextDeferred s \<le> d'" by (simp add: t_def)
    then show "settle_count d' (trace t) = 0"
      using Cons.prems(5) dlt by (simp add: cnt)
  qed
  have "rejectAll (p # tbl) s = rejectAll tbl t" by (simp add: p t_def)
  then show ?case using Cons.IH [OF a1 a2 a3 a4 a5] by simp
qed

lemma inv_table_cancel:
  assumes "inv_table s"
  shows "inv_table (cancelWithoutCleanup s)"
proof -
  have "inv_table (rejectAll (callResultPromises s) (s\<lparr> callResultPromises := [] \<rparr>))"
    using assms by (intro inv_table_rejectAll) (auto simp: inv_table_def)
  then show ?thesis
    by (rule inv_table_fields) (simp_all add: cancelWithoutCleanup_def Let_def)
qed

lemma inv_table_enqueue:
  assumes "inv_table s"
  shows "inv_table (snd (enqueueCallRequest c s))"
proof -
  define d where "d = nextDeferred s"
  define t where "t = s\<lparr> nextDeferred := Suc d,
                  deferreds := (deferreds s)(d := Pending),
                  callResultPromises := AList.update c d (callResultPromises s),
                  trace := trace s @ [Register c d] \<rparr>"
  have dist: "distinct (map snd (callResultPromises s))"
    and ent: "\<And>c' d'. (c', d') \<in> set (callResultPromises s) \<Longrightarrow>
                d' < nextDeferred s \<and> deferreds s d' = Pending \<and> settle_count d' (trace s) = 0"
    and once: "\<And>d. settle_count d (trace s) \<le> 1"
    and fresh: "\<And>d. nextDeferred s \<le> d \<Longrightarrow> settle_count d (trace s) = 0"
    using assms by (auto simp: inv_table_def)
  have notin: "d \<notin> snd ` set (callResultPromises s)"
    using ent by (fastforce simp: d_def)
  have p1: "distinct (map snd (callResultPromises t))"
    using distinct_snd_update [OF dist notin] by (simp add: t_def)
  have p2: "\<forall>(c', d') \<in> set (callResultPromises t).
              d' < nextDeferred t \<and> deferreds t d' = Pending \<and> settle_count d' (trace t) = 0"
  proof (clarify)
    fix c' d' assume "(c', d') \<in> set (callResultPromises t)"
    then have "(c', d') = (c, d) \<or> (c', d') \<in> set (callResultPromises s)"
      using set_update_subset [of c d "callResultPromises s"] by (auto simp: t_def)
    then show "d' < nextDeferred t \<and> deferreds t d' = Pending \<and> settle_count d' (trace t) = 0"
    proof
      assume "(c', d') = (c, d)"
      then show ?thesis using fresh [of d] by (simp add: t_def d_def)
    next
      assume "(c', d') \<in> set (callResultPromises s)"
      then show ?thesis using ent [of c' d'] by (simp add: t_def d_def)
    qed
  qed
  have p3: "\<forall>d'. settle_count d' (trace t) \<le> 1"
    using once by (simp add: t_def)
  have p4: "\<forall>d'. nextDeferred t \<le> d' \<longrightarrow> settle_count d' (trace t) = 0"
    using fresh by (simp add: t_def d_def)
  have "inv_table t" unfolding inv_table_def using p1 p2 p3 p4 by blast
  then have "inv_table (startResultCollectorIfNeeded t)"
    by (rule inv_table_fields) simp_all
  then show ?thesis by (simp add: enqueueCallRequest_def Let_def t_def d_def)
qed

lemma inv_table_step:
  assumes "inv_table s"
  shows "inv_table (step a s)"
proof (cases a)
  case (Call c)
  have "inv_table (call c s)"
    by (rule inv_table_fields [OF inv_table_enqueue [OF assms, of c]])
       (simp_all add: call_def split: prod.splits)
  then show ?thesis using Call by simp
next
  case (ResumeCaller i)
  have "inv_table (resumeCaller i s)"
    by (rule inv_table_fields [OF assms])
       (simp_all add: resumeCaller_def split: caller.splits promise.splits)
  then show ?thesis using ResumeCaller by simp
next
  case (Published i failure)
  have "inv_table (published i failure s)"
    by (rule inv_table_fields [OF assms])
       (simp_all add: published_def split: caller.splits option.splits)
  then show ?thesis using Published by simp
next
  case (Received k msgs)
  have "inv_table (state_of (handleMessages msgs s msgs))"
    using assms by (rule handleMessages_preserves) (rule inv_table_handleMessage)
  then have "inv_table (received k msgs s)"
    using assms by (simp add: received_alt inv_table_def)
  then show ?thesis using Received by simp
next
  case (ReceiveFailed k)
  have "inv_table (receiveFailed k s)"
    by (rule inv_table_fields [OF assms]) (simp_all add: receiveFailed_def)
  then show ?thesis using ReceiveFailed by simp
next
  case (Deleted k)
  have "inv_table (deleted k s)"
    by (rule inv_table_fields [OF assms]) (simp_all add: deleted_def)
  then show ?thesis using Deleted by simp
next
  case TimerFired
  have "inv_table (timerFired s)"
    by (rule inv_table_fields [OF assms]) (simp_all add: timerFired_def)
  then show ?thesis using TimerFired by simp
next
  case Cancel
  then show ?thesis using inv_table_cancel [OF assms] by simp
next
  case (ResumeCancel j)
  have "inv_table (resumeCancel j s)"
    by (rule inv_table_fields [OF assms])
       (simp_all add: resumeCancel_def split: cancel.splits collector.splits)
  then show ?thesis using ResumeCancel by simp
qed


subsection \<open>Resolutions and registrations of a CallId\<close>

lemma count_simps [simp]:
  "resolve_count c [] = 0"
  "resolve_count c (tr @ tr') = resolve_count c tr + resolve_count c tr'"
  "resolve_count c (e # tr) = (if resolves c e then 1 else 0) + resolve_count c tr"
  "register_count c [] = 0"
  "register_count c (tr @ tr') = register_count c tr + register_count c tr'"
  "register_count c (e # tr) = (if registers c e then 1 else 0) + register_count c tr"
  by (simp_all add: resolve_count_def register_count_def)

lemma inv_once_fields:
  assumes "inv_once s"
    and "fst ` set (callResultPromises t) \<subseteq> fst ` set (callResultPromises s)"
    and "\<And>c. resolve_count c (trace t) = resolve_count c (trace s)"
    and "\<And>c. register_count c (trace t) = register_count c (trace s)"
  shows "inv_once t"
  unfolding inv_once_def
proof
  fix c
  have "resolve_count c (trace s) + (if c \<in> fst ` set (callResultPromises s) then 1 else 0)
          \<le> register_count c (trace s)"
    using assms(1) by (simp add: inv_once_def)
  moreover have "(if c \<in> fst ` set (callResultPromises t) then 1 else 0)
          \<le> (if c \<in> fst ` set (callResultPromises s) then 1 else (0::nat))"
    using assms(2) by auto
  ultimately show "resolve_count c (trace t) + (if c \<in> fst ` set (callResultPromises t) then 1 else 0)
          \<le> register_count c (trace t)"
    using assms(3,4) by simp
qed

lemma counts_loop_test [simp]:
  "resolve_count c (trace (loop_test k s)) = resolve_count c (trace s)"
  "register_count c (trace (loop_test k s)) = register_count c (trace s)"
  by (simp_all add: loop_test_def)

lemma counts_start [simp]:
  "resolve_count c (trace (startResultCollectorIfNeeded s)) = resolve_count c (trace s)"
  "register_count c (trace (startResultCollectorIfNeeded s)) = register_count c (trace s)"
  by (simp_all add: startResultCollectorIfNeeded_def Let_def)

lemma counts_rejectAll [simp]:
  "resolve_count c (trace (rejectAll tbl s)) = resolve_count c (trace s)"
  "register_count c (trace (rejectAll tbl s)) = register_count c (trace s)"
  by (induction tbl s rule: rejectAll.induct) simp_all

lemma keys_delete: "fst ` set (AList.delete c al) = fst ` set al - {c}"
  by (auto simp: set_delete)

lemma inv_once_handleMessage:
  assumes "inv_once s"
  shows "inv_once (state_of (handleMessage raw s m))"
proof (cases "Body m")
  case None
  have "inv_once (s\<lparr> trace := trace s @ [DeleteMessage (ReceiptHandle m)] \<rparr>)"
    by (rule inv_once_fields [OF assms]) simp_all
  then show ?thesis using None by (simp add: handleMessage_def)
next
  case (Some b)
  show ?thesis
  proof (cases b)
    case Unparsable
    then show ?thesis using Some assms by (simp add: handleMessage_def)
  next
    case (Parsed ret)
    define c where "c = CallId ret"
    have old: "resolve_count c' (trace s) + (if c' \<in> fst ` set (callResultPromises s) then 1 else 0)
          \<le> register_count c' (trace s)" for c'
      using assms by (simp add: inv_once_def)
    show ?thesis
    proof (cases "map_of (callResultPromises s) c")
      case None
      show ?thesis
      proof (cases "prototype_member c")
        case True
        have "c \<notin> fst ` set (callResultPromises s)"
          using None by (simp add: map_of_eq_None_iff)
        then have "state_of (handleMessage raw s m) = s"
          using Some Parsed None True by (simp add: handleMessage_def c_def Let_def)
        then show ?thesis using assms by simp
      next
        case False
        have eq: "state_of (handleMessage raw s m) =
                    s\<lparr> callResultPromises := AList.delete c (callResultPromises s),
                       trace := trace s @ [NotFound c, DeleteMessage (ReceiptHandle m)] \<rparr>"
          using Some Parsed None False by (simp add: handleMessage_def c_def Let_def)
        show ?thesis unfolding eq
          by (rule inv_once_fields [OF assms]) (auto simp: keys_delete)
      qed
    next
      case found: (Some d)
      have mem: "c \<in> fst ` set (callResultPromises s)"
        using map_of_SomeD [OF found] by force
      have eq: "state_of (handleMessage raw s m) =
                  s\<lparr> callResultPromises := AList.delete c (callResultPromises s),
                     deferreds := (deferreds s)
                       (d := resolve (deferreds s d) \<lparr> returned = ret, rawResponse = raw \<rparr>),
                     trace := trace s @ [Resolve d c, DeleteMessage (ReceiptHandle m)] \<rparr>"
        using Some Parsed found by (simp add: handleMessage_def c_def Let_def)
      show ?thesis unfolding eq inv_once_def
      proof
        fix c'
        show "resolve_count c' (trace (s\<lparr> callResultPromises := AList.delete c (callResultPromises s),
                     deferreds := (deferreds s)
                       (d := resolve (deferreds s d) \<lparr> returned = ret, rawResponse = raw \<rparr>),
                     trace := trace s @ [Resolve d c, DeleteMessage (ReceiptHandle m)] \<rparr>))
              + (if c' \<in> fst ` set (callResultPromises (s\<lparr> callResultPromises := AList.delete c (callResultPromises s),
                     deferreds := (deferreds s)
                       (d := resolve (deferreds s d) \<lparr> returned = ret, rawResponse = raw \<rparr>),
                     trace := trace s @ [Resolve d c, DeleteMessage (ReceiptHandle m)] \<rparr>)) then 1 else 0)
              \<le> register_count c' (trace (s\<lparr> callResultPromises := AList.delete c (callResultPromises s),
                     deferreds := (deferreds s)
                       (d := resolve (deferreds s d) \<lparr> returned = ret, rawResponse = raw \<rparr>),
                     trace := trace s @ [Resolve d c, DeleteMessage (ReceiptHandle m)] \<rparr>))"
          using old [of c'] mem by (cases "c' = c") (simp_all add: keys_delete)
      qed
    qed
  qed
qed

lemma inv_once_step:
  assumes "inv_once s"
  shows "inv_once (step a s)"
proof (cases a)
  case (Call c)
  have old: "resolve_count c' (trace s) + (if c' \<in> fst ` set (callResultPromises s) then 1 else 0)
        \<le> register_count c' (trace s)" for c'
    using assms by (simp add: inv_once_def)
  have "inv_once (call c s)"
    unfolding inv_once_def
  proof
    fix c'
    show "resolve_count c' (trace (call c s))
            + (if c' \<in> fst ` set (callResultPromises (call c s)) then 1 else 0)
          \<le> register_count c' (trace (call c s))"
      using old [of c']
      by (cases "c' = c") (simp_all add: call_def enqueueCallRequest_def Let_def AList.dom_update)
  qed
  then show ?thesis using Call by simp
next
  case (ResumeCaller i)
  have "inv_once (resumeCaller i s)"
    by (rule inv_once_fields [OF assms])
       (simp_all add: resumeCaller_def split: caller.splits promise.splits)
  then show ?thesis using ResumeCaller by simp
next
  case (Published i failure)
  have "inv_once (published i failure s)"
    by (rule inv_once_fields [OF assms])
       (simp_all add: published_def split: caller.splits option.splits)
  then show ?thesis using Published by simp
next
  case (Received k msgs)
  have "inv_once (state_of (handleMessages msgs s msgs))"
    using assms by (rule handleMessages_preserves) (rule inv_once_handleMessage)
  then have "inv_once (received k msgs s)"
    using assms by (simp add: received_alt inv_once_def)
  then show ?thesis using Received by simp
next
  case (ReceiveFailed k)
  have "inv_once (receiveFailed k s)"
    by (rule inv_once_fields [OF assms]) (simp_all add: receiveFailed_def)
  then show ?thesis using ReceiveFailed by simp
next
  case (Deleted k)
  have "inv_once (deleted k s)"
    by (rule inv_once_fields [OF assms]) (simp_all add: deleted_def)
  then show ?thesis using Deleted by simp
next
  case TimerFired
  have "inv_once (timerFired s)"
    by (rule inv_once_fields [OF assms]) (simp_all add: timerFired_def)
  then show ?thesis using TimerFired by simp
next
  case Cancel
  have "inv_once (cancelWithoutCleanup s)"
    by (rule inv_once_fields [OF assms]) (simp_all add: cancelWithoutCleanup_def Let_def)
  then show ?thesis using Cancel by simp
next
  case (ResumeCancel j)
  have "inv_once (resumeCancel j s)"
    by (rule inv_once_fields [OF assms])
       (simp_all add: resumeCancel_def split: cancel.splits collector.splits)
  then show ?thesis using ResumeCancel by simp
qed

subsection \<open>Cancel tasks\<close>

lemma inv_cancel_step:
  assumes "inv_cancel s"
  shows "inv_cancel (step a s)"
proof (cases a)
  case (Call c)
  then show ?thesis using assms
    by (simp add: inv_cancel_def call_def enqueueCallRequest_def Let_def)
next
  case (ResumeCaller i)
  then show ?thesis using assms
    by (simp add: inv_cancel_def resumeCaller_def split: caller.splits promise.splits)
next
  case (Published i failure)
  then show ?thesis using assms
    by (simp add: inv_cancel_def published_def split: caller.splits option.splits)
next
  case (Received k msgs)
  then show ?thesis using assms by (simp add: inv_cancel_def received_alt)
next
  case (ReceiveFailed k)
  then show ?thesis using assms by (simp add: inv_cancel_def receiveFailed_def)
next
  case (Deleted k)
  then show ?thesis using assms by (simp add: inv_cancel_def deleted_def)
next
  case TimerFired
  then show ?thesis using assms by (simp add: inv_cancel_def timerFired_def)
next
  case Cancel
  then show ?thesis using assms by (simp add: inv_cancel_def cancelWithoutCleanup_def Let_def)
next
  case (ResumeCancel j)
  show ?thesis
  proof (cases "cancels s j")
    case (AwaitCollector k)
    then have "j < nextCancel s"
      using assms by (cases "j < nextCancel s") (auto simp: inv_cancel_def)
    then show ?thesis using ResumeCancel assms AwaitCollector
      by (simp add: inv_cancel_def resumeCancel_def split: collector.splits)
  qed (use ResumeCancel assms in \<open>simp_all add: resumeCancel_def\<close>)
qed


subsection \<open>Registrations, resolutions and callers\<close>

lemma inv_calls_fields:
  assumes "inv_calls s"
    and "callResultPromises t = callResultPromises s" and "deferreds t = deferreds s"
    and "nextDeferred t = nextDeferred s" and "callers t = callers s"
    and "nextCaller t = nextCaller s"
    and "\<And>c d. Register c d \<in> set (trace t) \<longleftrightarrow> Register c d \<in> set (trace s)"
    and "\<And>c d. Resolve d c \<in> set (trace t) \<longleftrightarrow> Resolve d c \<in> set (trace s)"
    and "\<And>c. Publish c \<in> set (trace t) \<longleftrightarrow> Publish c \<in> set (trace s)"
  shows "inv_calls t"
  using assms(1) unfolding inv_calls_def assms(2-9) .

lemma resolve_Fulfilled:
  "resolve p v = Fulfilled qr \<Longrightarrow> p = Fulfilled qr \<or> p = Pending"
  by (cases p) auto

lemma reject_Fulfilled [simp]:
  "reject p e = Fulfilled qr \<longleftrightarrow> p = Fulfilled qr"
  by (cases p) auto

lemma resolve_of_Fulfilled [simp]: "resolve (Fulfilled qr) v = Fulfilled qr"
  by simp

lemma inv_calls_reject:
  assumes "inv_calls s"
  shows "inv_calls (s\<lparr> deferreds := (deferreds s)(d := reject (deferreds s d) cancelled),
                       trace := trace s @ [Reject d] \<rparr>)"
  using assms unfolding inv_calls_def by simp

lemma inv_calls_cancel:
  assumes "inv_calls s"
  shows "inv_calls (cancelWithoutCleanup s)"
proof -
  have "inv_calls (s\<lparr> callResultPromises := [] \<rparr>)"
    using assms unfolding inv_calls_def by simp
  then have "inv_calls (rejectAll (callResultPromises s) (s\<lparr> callResultPromises := [] \<rparr>))"
    by (rule rejectAll_preserves) (rule inv_calls_reject)
  then show ?thesis
    by (rule inv_calls_fields) (simp_all add: cancelWithoutCleanup_def Let_def)
qed


lemma inv_calls_handleMessage:
  assumes "inv_calls s"
  shows "inv_calls (state_of (handleMessage raw s m))"
proof (cases "Body m")
  case None
  have "inv_calls (s\<lparr> trace := trace s @ [DeleteMessage (ReceiptHandle m)] \<rparr>)"
    by (rule inv_calls_fields [OF assms]) simp_all
  then show ?thesis using None by (simp add: handleMessage_def)
next
  case (Some b)
  show ?thesis
  proof (cases b)
    case Unparsable
    then show ?thesis using Some assms by (simp add: handleMessage_def)
  next
    case (Parsed ret)
    define c where "c = CallId ret"
    have i1: "\<And>c d. Register c d \<in> set (trace s) \<Longrightarrow> d < nextDeferred s"
      and i2: "\<And>c c' d. Register c d \<in> set (trace s) \<Longrightarrow> Register c' d \<in> set (trace s) \<Longrightarrow> c = c'"
      and i3: "\<And>c d. (c, d) \<in> set (callResultPromises s) \<Longrightarrow> Register c d \<in> set (trace s)"
      and i4: "\<And>c d. Resolve d c \<in> set (trace s) \<Longrightarrow> Register c d \<in> set (trace s)"
      and i5: "\<And>d qr. deferreds s d = Fulfilled qr \<Longrightarrow> \<exists>c. Resolve d c \<in> set (trace s)"
      and i6: "\<And>c. Publish c \<in> set (trace s) \<Longrightarrow> \<exists>d. Resolve d c \<in> set (trace s)"
      and i7: "\<And>i c d. callers s i = AwaitDeferred c d \<Longrightarrow> Register c d \<in> set (trace s)"
      and i8: "\<And>i c d qr. callers s i = AwaitPublish c d qr \<Longrightarrow>
                 deferreds s d = Fulfilled qr \<and> Resolve d c \<in> set (trace s)"
      and i9: "\<And>i. nextCaller s \<le> i \<Longrightarrow> callers s i = NoCaller"
      using assms unfolding inv_calls_def by blast+
    show ?thesis
    proof (cases "map_of (callResultPromises s) c")
      case None
      show ?thesis
      proof (cases "prototype_member c")
        case True
        have "c \<notin> fst ` set (callResultPromises s)"
          using None by (simp add: map_of_eq_None_iff)
        then have "state_of (handleMessage raw s m) = s"
          using Some Parsed None True by (simp add: handleMessage_def c_def Let_def)
        then show ?thesis using assms by simp
      next
        case False
        define t where "t = s\<lparr> callResultPromises := AList.delete c (callResultPromises s),
                       trace := trace s @ [NotFound c, DeleteMessage (ReceiptHandle m)] \<rparr>"
        have eq: "state_of (handleMessage raw s m) = t"
          using Some Parsed None False by (simp add: handleMessage_def c_def Let_def t_def)
        have "inv_calls t"
          unfolding inv_calls_def
          using i1 i2 i3 i4 i5 i6 i7 i8 i9
          by (simp add: t_def set_delete) blast
        then show ?thesis using eq by simp
      qed
    next
      case found: (Some d)
      have mem: "(c, d) \<in> set (callResultPromises s)"
        using found by (rule map_of_SomeD)
      define t where "t = s\<lparr> callResultPromises := AList.delete c (callResultPromises s),
                     deferreds := (deferreds s)
                       (d := resolve (deferreds s d) \<lparr> returned = ret, rawResponse = raw \<rparr>),
                     trace := trace s @ [Resolve d c, DeleteMessage (ReceiptHandle m)] \<rparr>"
      have eq: "state_of (handleMessage raw s m) = t"
        using Some Parsed found by (simp add: handleMessage_def c_def Let_def t_def)
      have tr: "set (trace t) = insert (Resolve d c) (insert (DeleteMessage (ReceiptHandle m)) (set (trace s)))"
        by (auto simp: t_def)
      have reg: "Register c d \<in> set (trace s)" using i3 [OF mem] .
      have c1: "\<forall>c d. Register c d \<in> set (trace t) \<longrightarrow> d < nextDeferred t"
        using i1 by (simp add: tr) (simp add: t_def)
      have c2: "\<forall>c c' d. Register c d \<in> set (trace t) \<and> Register c' d \<in> set (trace t) \<longrightarrow> c = c'"
        using i2 by (simp add: tr) blast
      have c3: "\<forall>(c, d) \<in> set (callResultPromises t). Register c d \<in> set (trace t)"
        using i3 by (auto simp: tr) (auto simp: t_def set_delete)
      have c4: "\<forall>c d. Resolve d c \<in> set (trace t) \<longrightarrow> Register c d \<in> set (trace t)"
        using i4 reg by (auto simp: tr)
      have c5: "\<forall>d qr. deferreds t d = Fulfilled qr \<longrightarrow> (\<exists>c. Resolve d c \<in> set (trace t))"
      proof (intro allI impI)
        fix d' qr assume f: "deferreds t d' = Fulfilled qr"
        show "\<exists>c. Resolve d' c \<in> set (trace t)"
        proof (cases "d' = d")
          case True
          then show ?thesis by (auto simp: tr)
        next
          case False
          then have "deferreds s d' = Fulfilled qr" using f by (simp add: t_def)
          then show ?thesis using i5 by (auto simp: tr)
        qed
      qed
      have c6: "\<forall>c. Publish c \<in> set (trace t) \<longrightarrow> (\<exists>d. Resolve d c \<in> set (trace t))"
        using i6 by (auto simp: tr)
      have c7: "\<forall>i c d. callers t i = AwaitDeferred c d \<longrightarrow> Register c d \<in> set (trace t)"
        using i7 by (auto simp: tr) (auto simp: t_def)
      have c8: "\<forall>i c d qr. callers t i = AwaitPublish c d qr \<longrightarrow>
                 deferreds t d = Fulfilled qr \<and> Resolve d c \<in> set (trace t)"
      proof (intro allI impI)
        fix i c' d' qr assume "callers t i = AwaitPublish c' d' qr"
        then have "callers s i = AwaitPublish c' d' qr" by (simp add: t_def)
        then have a: "deferreds s d' = Fulfilled qr" and b: "Resolve d' c' \<in> set (trace s)"
          using i8 by blast+
        have "deferreds t d' = Fulfilled qr"
          using a by (cases "d' = d") (simp_all add: t_def)
        then show "deferreds t d' = Fulfilled qr \<and> Resolve d' c' \<in> set (trace t)"
          using b by (simp add: tr)
      qed
      have c9: "\<forall>i. nextCaller t \<le> i \<longrightarrow> callers t i = NoCaller"
        using i9 by (simp add: t_def)
      have "inv_calls t"
        unfolding inv_calls_def using c1 c2 c3 c4 c5 c6 c7 c8 c9 by blast
      then show ?thesis using eq by simp
    qed
  qed
qed


lemma call_alt:
  "call c s =
     (startResultCollectorIfNeeded
        (s\<lparr> nextDeferred := Suc (nextDeferred s),
            deferreds := (deferreds s)(nextDeferred s := Pending),
            callResultPromises := AList.update c (nextDeferred s) (callResultPromises s),
            trace := trace s @ [Register c (nextDeferred s)] \<rparr>))
     \<lparr> nextCaller := Suc (nextCaller s),
        callers := (callers s)(nextCaller s := AwaitDeferred c (nextDeferred s)) \<rparr>"
  by (simp add: call_def enqueueCallRequest_def Let_def)

lemma trace_start:
  "set (trace (startResultCollectorIfNeeded s)) \<subseteq> set (trace s) \<union> range ReceiveMessage"
  by (auto simp: startResultCollectorIfNeeded_def loop_test_def Let_def)

lemma trace_start_mem [simp]:
  "Register c d \<in> set (trace (startResultCollectorIfNeeded s)) \<longleftrightarrow> Register c d \<in> set (trace s)"
  "Resolve d c \<in> set (trace (startResultCollectorIfNeeded s)) \<longleftrightarrow> Resolve d c \<in> set (trace s)"
  "Publish c \<in> set (trace (startResultCollectorIfNeeded s)) \<longleftrightarrow> Publish c \<in> set (trace s)"
  by (auto simp: startResultCollectorIfNeeded_def loop_test_def Let_def)

lemma trace_loop_test_mem [simp]:
  "Register c d \<in> set (trace (loop_test k s)) \<longleftrightarrow> Register c d \<in> set (trace s)"
  "Resolve d c \<in> set (trace (loop_test k s)) \<longleftrightarrow> Resolve d c \<in> set (trace s)"
  "Publish c \<in> set (trace (loop_test k s)) \<longleftrightarrow> Publish c \<in> set (trace s)"
  by (auto simp: loop_test_def)

lemma inv_calls_call:
  assumes "inv_calls s"
  shows "inv_calls (call c s)"
proof -
  define n where "n = nextDeferred s"
  define u where "u = s\<lparr> nextDeferred := Suc n,
            deferreds := (deferreds s)(n := Pending),
            callResultPromises := AList.update c n (callResultPromises s),
            trace := trace s @ [Register c n] \<rparr>"
  define t where "t = call c s"
  have t: "t = (startResultCollectorIfNeeded u)
     \<lparr> nextCaller := Suc (nextCaller s),
        callers := (callers s)(nextCaller s := AwaitDeferred c n) \<rparr>"
    by (simp add: t_def call_alt u_def n_def)
  have i1: "\<And>c d. Register c d \<in> set (trace s) \<Longrightarrow> d < n"
    and i2: "\<And>c c' d. Register c d \<in> set (trace s) \<Longrightarrow> Register c' d \<in> set (trace s) \<Longrightarrow> c = c'"
    and i3: "\<And>c d. (c, d) \<in> set (callResultPromises s) \<Longrightarrow> Register c d \<in> set (trace s)"
    and i4: "\<And>c d. Resolve d c \<in> set (trace s) \<Longrightarrow> Register c d \<in> set (trace s)"
    and i5: "\<And>d qr. deferreds s d = Fulfilled qr \<Longrightarrow> \<exists>c. Resolve d c \<in> set (trace s)"
    and i6: "\<And>c. Publish c \<in> set (trace s) \<Longrightarrow> \<exists>d. Resolve d c \<in> set (trace s)"
    and i7: "\<And>i c d. callers s i = AwaitDeferred c d \<Longrightarrow> Register c d \<in> set (trace s)"
    and i8: "\<And>i c d qr. callers s i = AwaitPublish c d qr \<Longrightarrow>
               deferreds s d = Fulfilled qr \<and> Resolve d c \<in> set (trace s)"
    and i9: "\<And>i. nextCaller s \<le> i \<Longrightarrow> callers s i = NoCaller"
    using assms unfolding inv_calls_def n_def by blast+
  have reg: "Register c' d \<in> set (trace t) \<longleftrightarrow> (c' = c \<and> d = n) \<or> Register c' d \<in> set (trace s)" for c' d
    by (auto simp: t u_def)
  have res: "Resolve d c' \<in> set (trace t) \<longleftrightarrow> Resolve d c' \<in> set (trace s)" for c' d
    by (auto simp: t u_def)
  have pub: "Publish c' \<in> set (trace t) \<longleftrightarrow> Publish c' \<in> set (trace s)" for c'
    by (auto simp: t u_def)
  have tbl: "callResultPromises t = AList.update c n (callResultPromises s)"
    and dfs: "deferreds t = (deferreds s)(n := Pending)"
    and nxt: "nextDeferred t = Suc n"
    and cls: "callers t = (callers s)(nextCaller s := AwaitDeferred c n)"
    and ncl: "nextCaller t = Suc (nextCaller s)"
    by (simp_all add: t u_def)
  have nreg: "Register c' n \<notin> set (trace s)" for c'
    using i1 [of c' n] by auto
  have nres: "Resolve n c' \<notin> set (trace s)" for c'
    using i4 [of n c'] nreg by auto
  have c1: "\<forall>c d. Register c d \<in> set (trace t) \<longrightarrow> d < nextDeferred t"
    using i1 by (auto simp: reg nxt less_Suc_eq)
  have c2: "\<forall>c c' d. Register c d \<in> set (trace t) \<and> Register c' d \<in> set (trace t) \<longrightarrow> c = c'"
    using i2 nreg by (auto simp: reg)
  have c3: "\<forall>(c, d) \<in> set (callResultPromises t). Register c d \<in> set (trace t)"
  proof (clarify)
    fix c' d assume "(c', d) \<in> set (callResultPromises t)"
    then have "(c', d) = (c, n) \<or> (c', d) \<in> set (callResultPromises s)"
      using set_update_subset [of c n "callResultPromises s"] by (auto simp: tbl)
    then show "Register c' d \<in> set (trace t)" using i3 by (auto simp: reg)
  qed
  have c4: "\<forall>c d. Resolve d c \<in> set (trace t) \<longrightarrow> Register c d \<in> set (trace t)"
    using i4 by (auto simp: reg res)
  have c5: "\<forall>d qr. deferreds t d = Fulfilled qr \<longrightarrow> (\<exists>c. Resolve d c \<in> set (trace t))"
    using i5 by (auto simp: dfs res split: if_splits)
  have c6: "\<forall>c. Publish c \<in> set (trace t) \<longrightarrow> (\<exists>d. Resolve d c \<in> set (trace t))"
    using i6 by (auto simp: pub res)
  have c7: "\<forall>i c d. callers t i = AwaitDeferred c d \<longrightarrow> Register c d \<in> set (trace t)"
    using i7 by (auto simp: cls reg split: if_splits)
  have c8: "\<forall>i c d qr. callers t i = AwaitPublish c d qr \<longrightarrow>
               deferreds t d = Fulfilled qr \<and> Resolve d c \<in> set (trace t)"
  proof (intro allI impI)
    fix i c' d qr assume "callers t i = AwaitPublish c' d qr"
    then have "callers s i = AwaitPublish c' d qr" by (auto simp: cls split: if_splits)
    then have a: "deferreds s d = Fulfilled qr" and b: "Resolve d c' \<in> set (trace s)"
      using i8 by blast+
    have "d \<noteq> n" using b nres by auto
    then show "deferreds t d = Fulfilled qr \<and> Resolve d c' \<in> set (trace t)"
      using a b by (simp add: dfs res)
  qed
  have c9: "\<forall>i. nextCaller t \<le> i \<longrightarrow> callers t i = NoCaller"
    using i9 by (auto simp: cls ncl)
  show ?thesis
    unfolding inv_calls_def t_def [symmetric] using c1 c2 c3 c4 c5 c6 c7 c8 c9 by blast
qed

lemma inv_calls_resumeCaller:
  assumes "inv_calls s"
  shows "inv_calls (resumeCaller i s)"
proof (cases "callers s i")
  case (AwaitDeferred c d)
  have i1: "\<And>c d. Register c d \<in> set (trace s) \<Longrightarrow> d < nextDeferred s"
    and i2: "\<And>c c' d. Register c d \<in> set (trace s) \<Longrightarrow> Register c' d \<in> set (trace s) \<Longrightarrow> c = c'"
    and i3: "\<And>c d. (c, d) \<in> set (callResultPromises s) \<Longrightarrow> Register c d \<in> set (trace s)"
    and i4: "\<And>c d. Resolve d c \<in> set (trace s) \<Longrightarrow> Register c d \<in> set (trace s)"
    and i5: "\<And>d qr. deferreds s d = Fulfilled qr \<Longrightarrow> \<exists>c. Resolve d c \<in> set (trace s)"
    and i6: "\<And>c. Publish c \<in> set (trace s) \<Longrightarrow> \<exists>d. Resolve d c \<in> set (trace s)"
    and i7: "\<And>i c d. callers s i = AwaitDeferred c d \<Longrightarrow> Register c d \<in> set (trace s)"
    and i8: "\<And>i c d qr. callers s i = AwaitPublish c d qr \<Longrightarrow>
               deferreds s d = Fulfilled qr \<and> Resolve d c \<in> set (trace s)"
    and i9: "\<And>i. nextCaller s \<le> i \<Longrightarrow> callers s i = NoCaller"
    using assms unfolding inv_calls_def by blast+
  have lt: "i < nextCaller s"
    using i9 [of i] AwaitDeferred by (cases "i < nextCaller s") auto
  show ?thesis
  proof (cases "deferreds s d")
    case Pending
    then show ?thesis using AwaitDeferred assms by (simp add: resumeCaller_def)
  next
    case (Rejected e)
    have eq: "resumeCaller i s = s\<lparr> callers := (callers s)(i := Threw e) \<rparr>"
      using AwaitDeferred Rejected by (simp add: resumeCaller_def)
    show ?thesis
      unfolding eq inv_calls_def
      using i1 i2 i3 i4 i5 i6 i7 i8 i9 lt by (simp; blast)
  next
    case (Fulfilled qr)
    have eq: "resumeCaller i s = s\<lparr> callers := (callers s)(i := AwaitPublish c d qr),
                  trace := trace s @ [Publish c] \<rparr>"
      using AwaitDeferred Fulfilled by (simp add: resumeCaller_def)
    obtain c' where r: "Resolve d c' \<in> set (trace s)" using i5 [OF Fulfilled] by blast
    have "c' = c" using i2 [OF i4 [OF r] i7 [OF AwaitDeferred]] .
    then have res: "Resolve d c \<in> set (trace s)" using r by simp
    show ?thesis
      unfolding eq inv_calls_def
      using i1 i2 i3 i4 i5 i6 i7 i8 i9 lt res Fulfilled by (simp; blast)
  qed
qed (use assms in \<open>simp_all add: resumeCaller_def\<close>)

lemma inv_calls_published:
  assumes "inv_calls s"
  shows "inv_calls (published i failure s)"
proof (cases "callers s i")
  case (AwaitPublish c d qr)
  have i9: "\<And>i. nextCaller s \<le> i \<Longrightarrow> callers s i = NoCaller"
    using assms unfolding inv_calls_def by blast
  have lt: "i < nextCaller s"
    using i9 [of i] AwaitPublish by (cases "i < nextCaller s") auto
  obtain r where eq: "published i failure s = s\<lparr> callers := (callers s)(i := r) \<rparr>"
    and r: "r = Threw (the failure) \<or> r = Returned (makeResponse qr)"
    using AwaitPublish by (cases failure) (auto simp: published_def)
  show ?thesis
    unfolding eq using assms lt r unfolding inv_calls_def by (simp; blast)
qed (use assms in \<open>simp_all add: published_def\<close>)

lemma inv_calls_step:
  assumes "inv_calls s"
  shows "inv_calls (step a s)"
proof (cases a)
  case (Call c)
  then show ?thesis using inv_calls_call [OF assms] by simp
next
  case (ResumeCaller i)
  then show ?thesis using inv_calls_resumeCaller [OF assms] by simp
next
  case (Published i failure)
  then show ?thesis using inv_calls_published [OF assms] by simp
next
  case (Received k msgs)
  have "inv_calls (state_of (handleMessages msgs s msgs))"
    using assms by (rule handleMessages_preserves) (rule inv_calls_handleMessage)
  then have "inv_calls (received k msgs s)"
    using assms by (simp add: received_alt inv_calls_def)
  then show ?thesis using Received by simp
next
  case (ReceiveFailed k)
  have "inv_calls (receiveFailed k s)"
    by (rule inv_calls_fields [OF assms]) (simp_all add: receiveFailed_def)
  then show ?thesis using ReceiveFailed by simp
next
  case (Deleted k)
  have "inv_calls (deleted k s)"
    by (rule inv_calls_fields [OF assms]) (simp_all add: deleted_def)
  then show ?thesis using Deleted by simp
next
  case TimerFired
  have "inv_calls (timerFired s)"
    by (rule inv_calls_fields [OF assms]) (simp_all add: timerFired_def)
  then show ?thesis using TimerFired by simp
next
  case Cancel
  then show ?thesis using inv_calls_cancel [OF assms] by simp
next
  case (ResumeCancel j)
  have "inv_calls (resumeCancel j s)"
    by (rule inv_calls_fields [OF assms])
       (simp_all add: resumeCancel_def split: cancel.splits collector.splits)
  then show ?thesis using ResumeCancel by simp
qed


subsection \<open>All invariants together\<close>

lemma inv_init: "inv init"
  by (simp add: inv_def inv_collector_def inv_table_def inv_calls_def inv_once_def inv_cancel_def
        init_def)

lemma inv_step: "inv s \<Longrightarrow> inv (step a s)"
  by (simp add: inv_def inv_collector_step inv_table_step inv_calls_step inv_once_step
        inv_cancel_step)

lemma inv_run: "inv s \<Longrightarrow> inv (run acts s)"
  by (induction acts arbitrary: s) (simp_all add: inv_step)

lemma inv_reachable: "inv (run acts init)"
  by (rule inv_run [OF inv_init])

section \<open>Properties of the engine\<close>

subsection \<open>Handling one message\<close>











subsection \<open>Messages without a pending entry\<close>


text \<open>
  A message whose CallId has no entry but names a member of \<open>Object.prototype\<close> is neither
  logged nor deleted: the collector dies of the \<open>TypeError\<close>.
\<close>

lemma inherited_member_ends_collector:
  "trace (run [Call ''abc'', Received 0 [response_message ''constructor'' ''1'' ''h'']] init)
     = [Register ''abc'' 0, ReceiveMessage 0]
   \<and> collectors (run [Call ''abc'', Received 0 [response_message ''constructor'' ''1'' ''h'']] init) 0
     = Crashed"
  by code_simp



subsection \<open>When the collector leaves its loop\<close>

text \<open>
  Claim C5, as the spec states it, fails: the collector leaves its loop because the table
  is empty; no stop message is involved. Here the only pending call is answered, and at
  the next loop test the collector exits.
\<close>

theorem collector_exits_on_empty_table_counterexample:
  "collectors (run [Call ''abc'', Received 0 [response_message ''abc'' ''3'' ''h''], Deleted 0] init) 0
     = Exited
   \<and> trace (run [Call ''abc'', Received 0 [response_message ''abc'' ''3'' ''h''], Deleted 0] init)
     = [Register ''abc'' 0, ReceiveMessage 0, Resolve 0 ''abc'', DeleteMessage ''h'',
        CollectorExit 0, SetTimeout]"
  by code_simp

text \<open>
  Claim C5, amended. At the loop test after the deletions of a batch the collector leaves
  its loop exactly when the pending table is empty (it then clears
  \<open>resultCollectorPromise\<close> and sets a zero-delay timer); with a non-empty table it polls
  again. A call that arrives while no collector promise is stored starts a new collector,
  so later calls are still served.
\<close>

theorem collector_exits_iff_table_empty:
  assumes "collectors s k = Deleting"
  shows "(callResultPromises s = [] \<longrightarrow>
            collectors (step (Deleted k) s) k = Exited
          \<and> resultCollectorPromise (step (Deleted k) s) = None
          \<and> trace (step (Deleted k) s) = trace s @ [CollectorExit k, SetTimeout])
       \<and> (callResultPromises s \<noteq> [] \<longrightarrow>
            collectors (step (Deleted k) s) k = Receiving
          \<and> resultCollectorPromise (step (Deleted k) s) = resultCollectorPromise s
          \<and> trace (step (Deleted k) s) = trace s @ [ReceiveMessage k])
       \<and> (\<forall>u c. resultCollectorPromise u = None \<longrightarrow>
            collectors (step (Call c) u) (nextCollector u) = Receiving
          \<and> resultCollectorPromise (step (Call c) u) = Some (nextCollector u))"
proof -
  have a: "callResultPromises s = [] \<longrightarrow>
            collectors (step (Deleted k) s) k = Exited
          \<and> resultCollectorPromise (step (Deleted k) s) = None
          \<and> trace (step (Deleted k) s) = trace s @ [CollectorExit k, SetTimeout]"
    using assms by (simp add: deleted_def loop_test_def isEmpty_def)
  have b: "callResultPromises s \<noteq> [] \<longrightarrow>
            collectors (step (Deleted k) s) k = Receiving
          \<and> resultCollectorPromise (step (Deleted k) s) = resultCollectorPromise s
          \<and> trace (step (Deleted k) s) = trace s @ [ReceiveMessage k]"
    using assms by (simp add: deleted_def loop_test_def isEmpty_def)
  have c: "collectors (step (Call c) u) (nextCollector u) = Receiving
          \<and> resultCollectorPromise (step (Call c) u) = Some (nextCollector u)"
    if "resultCollectorPromise u = None" for u c
    using that by (simp add: call_alt start_started isEmpty_def)
  show ?thesis using a b c by blast
qed

theorem collector_exits_iff_table_empty_witness:
  "collectors (step (Deleted 0) (run [Call ''abc'', Received 0 [response_message ''abc'' ''3'' ''h'']] init)) 0
     = Exited
   \<and> collectors (step (Deleted 0) (run [Call ''abc'', Received 0 []] init)) 0 = Receiving
   \<and> collectors (step (Call ''def'') init) 0 = Receiving"
proof -
  define s1 where "s1 = run [Call ''abc'', Received 0 [response_message ''abc'' ''3'' ''h'']] init"
  define s2 where "s2 = run [Call ''abc'', Received 0 []] init"
  have d1: "collectors s1 0 = Deleting" and e1: "callResultPromises s1 = []"
    unfolding s1_def by code_simp+
  have d2: "collectors s2 0 = Deleting" and e2: "callResultPromises s2 \<noteq> []"
    unfolding s2_def by code_simp+
  have n: "resultCollectorPromise init = None" and z: "nextCollector init = 0"
    by (simp_all add: init_def)
  have t1: "collectors (step (Deleted 0) s1) 0 = Exited"
    using collector_exits_iff_table_empty [OF d1] e1 by blast
  have t2: "collectors (step (Deleted 0) s2) 0 = Receiving"
    using collector_exits_iff_table_empty [OF d2] e2 by blast
  have "collectors (step (Call ''def'') init) (nextCollector init) = Receiving"
    using collector_exits_iff_table_empty [OF d1] n by blast
  then show ?thesis using t1 t2 z unfolding s1_def s2_def by simp
qed


subsection \<open>The drain operation \<open>cancelWithoutCleanup\<close>\<close>

lemma trace_rejectAll:
  "trace (rejectAll tbl s) = trace s @ map (\<lambda>p. Reject (snd p)) tbl"
  by (induction tbl s rule: rejectAll.induct) simp_all

lemma reject_twice [simp]: "reject (reject p e) e = reject p e"
  by (cases p) simp_all


text \<open>
  Claim C7, as the spec states it, fails: \<open>cancelWithoutCleanup\<close> publishes nothing. With
  the call \<open>abc\<close> pending, the drain only rejects the deferred; the collector stays blocked
  in \<open>receiveMessage\<close> and the drain waits for it.
\<close>

theorem cancel_publishes_no_stop_message_counterexample:
  "trace (run [Call ''abc'', Cancel] init) = [Register ''abc'' 0, ReceiveMessage 0, Reject 0]
   \<and> cancels (run [Call ''abc'', Cancel] init) 0 = AwaitCollector 0
   \<and> collectors (run [Call ''abc'', Cancel] init) 0 = Receiving"
  by code_simp

text \<open>
  Claim C7, amended. Every invocation of \<open>cancelWithoutCleanup\<close> empties the pending table
  and rejects the deferreds it held, and does nothing else to the transport (no control
  message, no draining flag); when a collector promise is stored it awaits it and returns
  only when that collector has left its loop, otherwise it returns at once; on an engine
  with an empty table and no collector promise it changes nothing but its own task record.
\<close>

theorem cancel_only_rejects_and_waits:
  "trace (cancelWithoutCleanup s) = trace s @ map (\<lambda>p. Reject (snd p)) (callResultPromises s)
   \<and> callResultPromises (cancelWithoutCleanup s) = []
   \<and> cancels (cancelWithoutCleanup s) (nextCancel s)
       = (case resultCollectorPromise s of Some k \<Rightarrow> AwaitCollector k | None \<Rightarrow> CancelReturned)
   \<and> (\<forall>u j k. cancels u j = AwaitCollector k
          \<and> cancels (resumeCancel j u) j = CancelReturned \<longrightarrow> collectors u k = Exited)
   \<and> (callResultPromises s = [] \<and> resultCollectorPromise s = None \<longrightarrow>
        cancelWithoutCleanup s
          = s\<lparr> nextCancel := Suc (nextCancel s),
               cancels := (cancels s)(nextCancel s := CancelReturned) \<rparr>)"
proof -
  have a: "trace (cancelWithoutCleanup s)
             = trace s @ map (\<lambda>p. Reject (snd p)) (callResultPromises s)"
    by (simp add: cancelWithoutCleanup_def Let_def trace_rejectAll)
  have b: "callResultPromises (cancelWithoutCleanup s) = []"
    by (simp add: cancelWithoutCleanup_def Let_def)
  have c: "cancels (cancelWithoutCleanup s) (nextCancel s)
       = (case resultCollectorPromise s of Some k \<Rightarrow> AwaitCollector k | None \<Rightarrow> CancelReturned)"
    by (simp add: cancelWithoutCleanup_def Let_def)
  have d: "collectors u k = Exited"
    if "cancels u j = AwaitCollector k" and "cancels (resumeCancel j u) j = CancelReturned"
    for u j k
    using that by (cases "collectors u k") (simp_all add: resumeCancel_def)
  have e: "callResultPromises s = [] \<and> resultCollectorPromise s = None \<longrightarrow>
        cancelWithoutCleanup s
          = s\<lparr> nextCancel := Suc (nextCancel s),
               cancels := (cancels s)(nextCancel s := CancelReturned) \<rparr>"
    by (simp add: cancelWithoutCleanup_def Let_def)
  show ?thesis using a b c d e by blast
qed

theorem cancel_only_rejects_and_waits_witness:
  "trace (cancelWithoutCleanup (run [Call ''abc''] init))
     = [Register ''abc'' 0, ReceiveMessage 0, Reject 0]
   \<and> cancels (cancelWithoutCleanup (run [Call ''abc''] init)) 0 = AwaitCollector 0
   \<and> collectors (run [Call ''abc'', Cancel, Received 0 [], Deleted 0] init) 0 = Exited
   \<and> cancelWithoutCleanup init = init\<lparr> nextCancel := Suc 0, cancels := (cancels init)(0 := CancelReturned) \<rparr>"
proof -
  define s where "s = run [Call ''abc''] init"
  define u where "u = run [Call ''abc'', Cancel, Received 0 [], Deleted 0] init"
  have s1: "trace s = [Register ''abc'' 0, ReceiveMessage 0]"
    and s2: "callResultPromises s = [(''abc'', 0)]"
    and s3: "resultCollectorPromise s = Some 0" and s4: "nextCancel s = 0"
    unfolding s_def by code_simp+
  have u1: "cancels u 0 = AwaitCollector 0"
    and u2: "cancels (resumeCancel 0 u) 0 = CancelReturned"
    unfolding u_def by code_simp+
  have i: "callResultPromises init = [] \<and> resultCollectorPromise init = None"
    and i0: "nextCancel init = 0"
    by (simp_all add: init_def)
  have t1: "trace (cancelWithoutCleanup s) = [Register ''abc'' 0, ReceiveMessage 0, Reject 0]"
    using cancel_only_rejects_and_waits [of s] s1 s2 by simp
  have t2: "cancels (cancelWithoutCleanup s) 0 = AwaitCollector 0"
    using cancel_only_rejects_and_waits [of s] s3 s4 by simp
  have t3: "collectors u 0 = Exited"
    using cancel_only_rejects_and_waits [of s] u1 u2 by blast
  have t4: "cancelWithoutCleanup init
              = init\<lparr> nextCancel := Suc 0, cancels := (cancels init)(0 := CancelReturned) \<rparr>"
    using cancel_only_rejects_and_waits [of init] i i0 by simp
  show ?thesis using t1 t2 t3 t4 unfolding s_def u_def by simp
qed

subsection \<open>Registration, publish and the response\<close>

text \<open>
  Claim C1 at the call \<open>abc\<close> on a fresh engine. The entry is registered and the collector
  polls, but the request is not published: the caller awaits the deferred first. However
  often the queue is polled, nothing is published. Only when a response bearing \<open>abc\<close> is
  received is the request published, and then the table no longer holds the entry. When
  the engine is drained instead, the caller's future is rejected and no request was
  published at all.
\<close>

theorem publish_waits_for_the_response:
  "trace (run [Call ''abc'', Received 0 [], Deleted 0, ResumeCaller 0] init)
     = [Register ''abc'' 0, ReceiveMessage 0, ReceiveMessage 0]
   \<and> callers (run [Call ''abc'', Received 0 [], Deleted 0, ResumeCaller 0] init) 0
     = AwaitDeferred ''abc'' 0
   \<and> trace (run [Call ''abc'', Received 0 [response_message ''abc'' ''3'' ''h''], ResumeCaller 0] init)
     = [Register ''abc'' 0, ReceiveMessage 0, Resolve 0 ''abc'', DeleteMessage ''h'', Publish ''abc'']
   \<and> callResultPromises
       (run [Call ''abc'', Received 0 [response_message ''abc'' ''3'' ''h''], ResumeCaller 0] init) = []
   \<and> trace (run [Call ''abc'', Cancel, ResumeCaller 0] init)
     = [Register ''abc'' 0, ReceiveMessage 0, Reject 0]
   \<and> callers (run [Call ''abc'', Cancel, ResumeCaller 0] init) 0 = Threw cancelled"
  by code_simp

text \<open>In every run a request is published only for a CallId that was already resolved.\<close>

lemma publish_only_after_resolve:
  assumes "s = run acts init" and "Publish c \<in> set (trace s)"
  shows "\<exists>d. Resolve d c \<in> set (trace s)"
proof -
  have "inv_calls s" using assms(1) inv_reachable [of acts] by (simp add: inv_def)
  then show ?thesis using assms(2) unfolding inv_calls_def by blast
qed


subsection \<open>Draining rejects the outstanding calls and waits for the collector\<close>















subsection \<open>A failed publish\<close>


text \<open>
  In every run, a call that waits for \<open>sns.publish\<close> has had its deferred resolved and its
  entry deleted by the collector before; a failure of the publish then makes the call
  throw, and removes nothing from the table.
\<close>

lemma publish_is_attempted_only_after_the_response:
  assumes "s = run acts init" and "callers s i = AwaitPublish c d qr"
  shows "Resolve d c \<in> set (trace s)
       \<and> d \<notin> snd ` set (callResultPromises s)
       \<and> callers (step (Published i (Some err)) s) i = Threw err
       \<and> callResultPromises (step (Published i (Some err)) s) = callResultPromises s"
proof -
  have iv: "inv s" using assms(1) inv_reachable by simp
  have ful: "deferreds s d = Fulfilled qr" and res: "Resolve d c \<in> set (trace s)"
    using iv assms(2) unfolding inv_def inv_calls_def by blast+
  have a: "callers (step (Published i (Some err)) s) i = Threw err"
    using assms(2) by (simp add: published_def)
  have b: "callResultPromises (step (Published i (Some err)) s) = callResultPromises s"
    using assms(2) by (simp add: published_def)
  have c: "d \<notin> snd ` set (callResultPromises s)"
  proof
    assume "d \<in> snd ` set (callResultPromises s)"
    then obtain c' where "(c', d) \<in> set (callResultPromises s)" by force
    then have "deferreds s d = Pending" using iv by (auto simp: inv_def inv_table_def)
    then show False using ful by simp
  qed
  show ?thesis using res c a b by blast
qed

section \<open>One collector and one garbage collection at a time\<close>

lemma inv_gc_init: "inv_gc gc_init"
  by (simp add: inv_gc_def gc_init_def)

lemma inv_gc_step:
  assumes "inv_gc g"
  shows "inv_gc (gc_step a g)"
proof -
  have run: "\<And>k. collections g k = Collecting \<Longrightarrow> garbageCollectorRunning g"
    and uniq: "\<And>k k'. collections g k = Collecting \<Longrightarrow> collections g k' = Collecting \<Longrightarrow> k = k'"
    and fresh: "\<And>k. nextCollection g \<le> k \<Longrightarrow> collections g k = NoCollection"
    using assms unfolding inv_gc_def by blast+
  show ?thesis
  proof (cases a)
    case CollectGarbage
    show ?thesis
    proof (cases "garbageCollectorRunning g")
      case True
      then show ?thesis
        unfolding inv_gc_def using CollectGarbage run uniq fresh
        by (simp add: collectGarbage_def)
    next
      case False
      then have none: "collections g k \<noteq> Collecting" for k using run by blast
      show ?thesis
        unfolding inv_gc_def using CollectGarbage False none fresh
        by (simp add: collectGarbage_def)
    qed
  next
    case (CollectionSettled k ok)
    show ?thesis
    proof (cases "collections g k = Collecting")
      case False
      then show ?thesis using CollectionSettled assms by (simp add: collectionSettled_def)
    next
      case True
      have only: "collections g k' \<noteq> Collecting" if "k' \<noteq> k" for k'
        using uniq [OF _ True, of k'] that by blast
      have lt: "k < nextCollection g"
        using fresh [of k] True by (cases "k < nextCollection g") auto
      show ?thesis
        unfolding inv_gc_def using CollectionSettled True only fresh lt
        by (simp add: collectionSettled_def)
    qed
  qed
qed

lemma inv_gc_run: "inv_gc g \<Longrightarrow> inv_gc (gc_run gacts g)"
  by (induction gacts arbitrary: g) (simp_all add: inv_gc_step)

lemma start_promise:
  "resultCollectorPromise (startResultCollectorIfNeeded u)
     = (if \<not> isEmpty (callResultPromises u) \<and> resultCollectorPromise u = None
        then Some (nextCollector u) else resultCollectorPromise u)"
  by (simp add: startResultCollectorIfNeeded_def Let_def)

lemma promise_cleared_only_by_exit:
  assumes "inv_collector s" and "resultCollectorPromise s = Some k"
    and "resultCollectorPromise (step a s) \<noteq> Some k"
  shows "a = Deleted k \<and> collectors s k = Deleting \<and> callResultPromises s = []
       \<and> collectors (step a s) k = Exited \<and> resultCollectorPromise (step a s) = None"
proof (cases a)
  case (Call c)
  then show ?thesis using assms(2,3) by (simp add: call_alt start_promise)
next
  case (ResumeCaller i)
  then show ?thesis using assms(2,3)
    by (simp add: resumeCaller_def split: caller.splits promise.splits)
next
  case (Published i failure)
  then show ?thesis using assms(2,3)
    by (simp add: published_def split: caller.splits option.splits)
next
  case (Received k' msgs)
  then show ?thesis using assms(2,3) by (simp add: received_alt split: if_splits)
next
  case (ReceiveFailed k')
  then show ?thesis using assms(2,3) by (simp add: receiveFailed_def split: if_splits)
next
  case (Deleted k')
  have del: "collectors s k' = Deleting"
    using Deleted assms(2,3) by (cases "collectors s k' = Deleting") (simp_all add: deleted_def)
  then have "resultCollectorPromise s = Some k'"
    using assms(1) by (simp add: inv_collector_def)
  then have kk: "k' = k" using assms(2) by simp
  have emp: "callResultPromises s = []"
    using Deleted assms(2,3) del by (cases "callResultPromises s = []")
      (simp_all add: deleted_def loop_test_def isEmpty_def)
  show ?thesis using Deleted kk del emp by (simp add: deleted_def loop_test_def isEmpty_def)
next
  case TimerFired
  then show ?thesis using assms(2,3) by (simp add: timerFired_def start_promise split: if_splits)
next
  case Cancel
  then show ?thesis using assms(2,3) by (simp add: cancelWithoutCleanup_def Let_def)
next
  case (ResumeCancel j)
  then show ?thesis using assms(2,3)
    by (simp add: resumeCancel_def split: cancel.splits collector.splits)
qed

text \<open>
  Claim C10. In every reachable state of the engine at most one collector is running, and
  it is the one whose promise is stored in \<open>resultCollectorPromise\<close>.
  \<open>startResultCollectorIfNeeded\<close> does nothing unless the table is non-empty and no promise
  is stored; then it starts exactly one collector and stores its promise. A stored promise
  is removed by no step but the loop test of that very collector finding the table empty,
  the step in which it exits. In every reachable state of the garbage collector's guard at
  most one collection is at work and the flag is set while it is; an invocation that finds
  the flag set returns at once; when a collection ends, with or without an error, the flag
  is cleared and no collection is at work.
\<close>

theorem one_collector_and_one_garbage_collection_at_a_time:
  assumes "s = run acts init" and "g = gc_run gacts gc_init"
  shows "(\<forall>k k'. live (collectors s k) \<and> live (collectors s k') \<longrightarrow> k = k')
       \<and> (\<forall>k. live (collectors s k) \<longrightarrow> resultCollectorPromise s = Some k)
       \<and> (callResultPromises s = [] \<or> resultCollectorPromise s \<noteq> None \<longrightarrow>
            startResultCollectorIfNeeded s = s)
       \<and> (callResultPromises s \<noteq> [] \<and> resultCollectorPromise s = None \<longrightarrow>
            collectors (startResultCollectorIfNeeded s) (nextCollector s) = Receiving
          \<and> resultCollectorPromise (startResultCollectorIfNeeded s) = Some (nextCollector s)
          \<and> (\<forall>k. live (collectors (startResultCollectorIfNeeded s) k) \<longrightarrow> k = nextCollector s))
       \<and> (\<forall>a k. resultCollectorPromise s = Some k \<and> resultCollectorPromise (step a s) \<noteq> Some k \<longrightarrow>
            a = Deleted k \<and> collectors s k = Deleting \<and> callResultPromises s = []
          \<and> collectors (step a s) k = Exited \<and> resultCollectorPromise (step a s) = None)
       \<and> (\<forall>k k'. collections g k = Collecting \<and> collections g k' = Collecting \<longrightarrow> k = k')
       \<and> (\<forall>k. collections g k = Collecting \<longrightarrow> garbageCollectorRunning g)
       \<and> (garbageCollectorRunning g \<longrightarrow>
            collections (gc_step CollectGarbage g) (nextCollection g) = Skipped)
       \<and> (\<forall>k ok. collections g k = Collecting \<longrightarrow>
            \<not> garbageCollectorRunning (gc_step (CollectionSettled k ok) g)
          \<and> (\<forall>k'. collections (gc_step (CollectionSettled k ok) g) k' \<noteq> Collecting))"
proof -
  have iv: "inv_collector s" using assms(1) inv_reachable [of acts] by (simp add: inv_def)
  have ig: "inv_gc g" using assms(2) inv_gc_run [OF inv_gc_init] by simp
  have prom: "resultCollectorPromise s = Some k" if "live (collectors s k)" for k
    using iv that by (simp add: inv_collector_def)
  have c1: "\<forall>k k'. live (collectors s k) \<and> live (collectors s k') \<longrightarrow> k = k'"
  proof (intro allI impI, elim conjE)
    fix k k' assume "live (collectors s k)" and "live (collectors s k')"
    then have "resultCollectorPromise s = Some k" and "resultCollectorPromise s = Some k'"
      using prom by blast+
    then show "k = k'" by simp
  qed
  have c2: "\<forall>k. live (collectors s k) \<longrightarrow> resultCollectorPromise s = Some k"
    using prom by blast
  have c3: "callResultPromises s = [] \<or> resultCollectorPromise s \<noteq> None \<longrightarrow>
            startResultCollectorIfNeeded s = s"
    using start_not_started [of s] by (simp add: isEmpty_def)
  have c4: "callResultPromises s \<noteq> [] \<and> resultCollectorPromise s = None \<longrightarrow>
            collectors (startResultCollectorIfNeeded s) (nextCollector s) = Receiving
          \<and> resultCollectorPromise (startResultCollectorIfNeeded s) = Some (nextCollector s)
          \<and> (\<forall>k. live (collectors (startResultCollectorIfNeeded s) k) \<longrightarrow> k = nextCollector s)"
  proof
    assume h: "callResultPromises s \<noteq> [] \<and> resultCollectorPromise s = None"
    then have nl: "\<not> live (collectors s k)" for k using prom [of k] by auto
    show "collectors (startResultCollectorIfNeeded s) (nextCollector s) = Receiving
          \<and> resultCollectorPromise (startResultCollectorIfNeeded s) = Some (nextCollector s)
          \<and> (\<forall>k. live (collectors (startResultCollectorIfNeeded s) k) \<longrightarrow> k = nextCollector s)"
      using h nl by (simp add: start_started isEmpty_def)
  qed
  have c5: "\<forall>a k. resultCollectorPromise s = Some k \<and> resultCollectorPromise (step a s) \<noteq> Some k \<longrightarrow>
            a = Deleted k \<and> collectors s k = Deleting \<and> callResultPromises s = []
          \<and> collectors (step a s) k = Exited \<and> resultCollectorPromise (step a s) = None"
    using promise_cleared_only_by_exit [OF iv] by blast
  have g1: "\<forall>k k'. collections g k = Collecting \<and> collections g k' = Collecting \<longrightarrow> k = k'"
    and g2: "\<forall>k. collections g k = Collecting \<longrightarrow> garbageCollectorRunning g"
    using ig unfolding inv_gc_def by blast+
  have g3: "garbageCollectorRunning g \<longrightarrow>
            collections (gc_step CollectGarbage g) (nextCollection g) = Skipped"
    by (simp add: collectGarbage_def)
  have g4: "\<forall>k ok. collections g k = Collecting \<longrightarrow>
            \<not> garbageCollectorRunning (gc_step (CollectionSettled k ok) g)
          \<and> (\<forall>k'. collections (gc_step (CollectionSettled k ok) g) k' \<noteq> Collecting)"
  proof (intro allI impI)
    fix k ok assume c: "collections g k = Collecting"
    have "inv_gc (gc_step (CollectionSettled k ok) g)" using ig by (rule inv_gc_step)
    moreover have "\<not> garbageCollectorRunning (gc_step (CollectionSettled k ok) g)"
      using c by (simp add: collectionSettled_def)
    ultimately show "\<not> garbageCollectorRunning (gc_step (CollectionSettled k ok) g)
          \<and> (\<forall>k'. collections (gc_step (CollectionSettled k ok) g) k' \<noteq> Collecting)"
      unfolding inv_gc_def by blast
  qed
  show ?thesis using c1 c2 c3 c4 c5 g1 g2 g3 g4 by blast
qed

theorem one_collector_and_one_garbage_collection_at_a_time_witness:
  "resultCollectorPromise (run [Call ''abc'', Call ''def''] init) = Some 0
   \<and> collectors (run [Call ''abc'', Call ''def''] init) 1 = NotStarted
   \<and> startResultCollectorIfNeeded (run [Call ''abc'', Call ''def''] init)
       = run [Call ''abc'', Call ''def''] init
   \<and> garbageCollectorRunning (gc_run [CollectGarbage, CollectGarbage] gc_init)
   \<and> collections (gc_run [CollectGarbage, CollectGarbage] gc_init) 1 = Skipped
   \<and> \<not> garbageCollectorRunning
         (gc_step (CollectionSettled 0 False) (gc_run [CollectGarbage, CollectGarbage] gc_init))"
proof -
  define s where "s = run [Call ''abc'', Call ''def''] init"
  define g where "g = gc_run [CollectGarbage, CollectGarbage] gc_init"
  note th = one_collector_and_one_garbage_collection_at_a_time [OF s_def g_def]
  have l: "live (collectors s 0)" and n: "collectors s 1 = NotStarted"
    unfolding s_def by code_simp+
  have c: "collections g 0 = Collecting" and k: "collections g 1 = Skipped"
    unfolding g_def by code_simp+
  have t1: "resultCollectorPromise s = Some 0" using th l by blast
  then have "resultCollectorPromise s \<noteq> None" by simp
  then have t2: "startResultCollectorIfNeeded s = s" using th by blast
  have t3: "garbageCollectorRunning g" using th c by blast
  have t4: "\<not> garbageCollectorRunning (gc_step (CollectionSettled 0 False) g)"
    using th c by blast
  show ?thesis using t1 n t2 t3 k t4 unfolding s_def g_def by simp
qed

section \<open>The Funnel keeps its concurrency limit\<close>

lemma executing_snoc [simp]: "executing (h @ [e]) = apply_event (executing h) e"
  by (simp add: executing_def)

lemma executing_Nil [simp]: "executing [] = []"
  by (simp add: executing_def)

lemma take_snoc_cases:
  "take i (h @ [e]) = (if i \<le> length h then take i h else h @ [e])"
  by auto

lemma inv_funnel_admit:
  assumes "inv_funnel n f" and "concurrency cfg = Some n"
  shows "inv_funnel n (admit cfg q f)"
  using assms(1)
proof (induction q arbitrary: f)
  case Nil
  then show ?case by (simp add: inv_funnel_def)
next
  case (Cons job waiting)
  show ?case
  proof (cases "slot_free cfg f \<and> 0 < rateTokens f")
    case False
    then show ?thesis using Cons.prems by (auto simp: inv_funnel_def)
  next
    case True
    then have lt: "concurrencyInUse f < n" using assms(2) by (simp add: slot_free_def)
    define f' where "f' = f\<lparr> concurrencyInUse := Suc (concurrencyInUse f),
              rateTokens := rateTokens f - 1,
              history := history f @ [Start job] \<rparr>"
    have cnt: "concurrencyInUse f = length (executing (history f))"
      and bnd: "\<And>i. length (executing (take i (history f))) \<le> n"
      using Cons.prems by (simp_all add: inv_funnel_def)
    have a: "concurrencyInUse f' = length (executing (history f'))"
      using cnt by (simp add: f'_def)
    have b: "length (executing (take i (history f'))) \<le> n" for i
    proof (cases "i \<le> length (history f)")
      case True
      then show ?thesis using bnd [of i] by (simp add: f'_def)
    next
      case False
      then show ?thesis using cnt lt by (simp add: f'_def)
    qed
    have "inv_funnel n f'" unfolding inv_funnel_def using a b by blast
    then have "inv_funnel n (admit cfg waiting f')" by (rule Cons.IH)
    then show ?thesis using True by (simp add: f'_def)
  qed
qed

lemma inv_funnel_step:
  assumes "inv_funnel n f" and "concurrency cfg = Some n"
  shows "inv_funnel n (funnel_step cfg a f)"
proof (cases a)
  case Submit
  have "inv_funnel n (f\<lparr> submitted := Suc (submitted f) \<rparr>)"
    using assms(1) by (simp add: inv_funnel_def)
  then show ?thesis using Submit assms(2) by (simp add: submit_def inv_funnel_admit)
next
  case (Complete job)
  show ?thesis
  proof (cases "job \<in> set (executing (history f))")
    case False
    then show ?thesis using Complete assms(1) by (simp add: complete_def)
  next
    case True
    define f' where "f' = f\<lparr> concurrencyInUse := concurrencyInUse f - 1,
              history := history f @ [End job] \<rparr>"
    have cnt: "concurrencyInUse f = length (executing (history f))"
      and bnd: "\<And>i. length (executing (take i (history f))) \<le> n"
      using assms(1) by (simp_all add: inv_funnel_def)
    have a: "concurrencyInUse f' = length (executing (history f'))"
      using cnt True by (simp add: f'_def length_remove1)
    have b: "length (executing (take i (history f'))) \<le> n" for i
    proof (cases "i \<le> length (history f)")
      case True
      then show ?thesis using bnd [of i] by (simp add: f'_def)
    next
      case False
      have "length (executing (history f)) \<le> n" using bnd [of "length (history f)"] by simp
      then show ?thesis using False \<open>job \<in> set (executing (history f))\<close>
        by (simp add: f'_def length_remove1)
    qed
    have "inv_funnel n f'" unfolding inv_funnel_def using a b by blast
    then show ?thesis using Complete True assms(2)
      by (simp add: complete_def inv_funnel_admit f'_def)
  qed
next
  case Refill
  have "inv_funnel n (f\<lparr> rateTokens := min (burst cfg) (Suc (rateTokens f)) \<rparr>)"
    using assms(1) by (simp add: inv_funnel_def)
  then show ?thesis using Refill assms(2) by (simp add: refill_def inv_funnel_admit)
qed

lemma inv_funnel_run:
  "inv_funnel n f \<Longrightarrow> concurrency cfg = Some n \<Longrightarrow> inv_funnel n (funnel_run cfg acts f)"
  by (induction acts arbitrary: f) (simp_all add: inv_funnel_step)

lemma inv_funnel_init: "inv_funnel n (funnel_init cfg)"
  by (simp add: inv_funnel_def funnel_init_def)

lemma ended_between:
  assumes "a \<in> set (executing (take m h))" and "a \<notin> set (executing (take j h))"
    and "m \<le> j" and "j \<le> length h"
  shows "\<exists>k. m \<le> k \<and> k < j \<and> h ! k = End a"
  using assms
proof (induction j)
  case 0
  then show ?case by simp
next
  case (Suc j)
  show ?case
  proof (cases "m = Suc j")
    case True
    then show ?thesis using Suc.prems by simp
  next
    case False
    then have mj: "m \<le> j" using Suc.prems(3) by simp
    have jl: "j < length h" using Suc.prems(4) by simp
    have tk: "take (Suc j) h = take j h @ [h ! j]"
      using jl by (simp add: take_Suc_conv_app_nth)
    show ?thesis
    proof (cases "a \<in> set (executing (take j h))")
      case False
      then obtain k where "m \<le> k" "k < j" "h ! k = End a"
        using Suc.IH [OF Suc.prems(1) _ mj] jl by auto
      then show ?thesis by (intro exI [of _ k]) simp
    next
      case True
      have gone: "a \<notin> set (apply_event (executing (take j h)) (h ! j))"
        using Suc.prems(2) by (simp add: tk)
      have "h ! j = End a"
      proof (cases "h ! j")
        case (Start x)
        then show ?thesis using gone True by simp
      next
        case (End x)
        show ?thesis
        proof (cases "x = a")
          case True
          then show ?thesis using End by simp
        next
          case False
          then have "a \<in> set (remove1 x (executing (take j h)))"
            using True by simp
          then show ?thesis using gone End by simp
        qed
      qed
      then show ?thesis using mj by (intro exI [of _ j]) simp
    qed
  qed
qed

lemma executing_alternating:
  "alternating h \<Longrightarrow> executing h = [] \<or> (\<exists>a. executing h = [a])"
proof (induction h rule: alternating.induct)
  case 1
  then show ?case by simp
next
  case (2 a)
  then show ?case by (simp add: executing_def)
next
  case (3 a b h)
  then have "executing (Start a # End b # h) = executing h"
    by (simp add: executing_def)
  then show ?case using 3 by simp
next
  case (4 a b h)
  then show ?case by simp
next
  case (5 b h)
  then show ?case by simp
qed

lemma alternating_start:
  "alternating h \<Longrightarrow> executing h = [] \<Longrightarrow> alternating (h @ [Start a])"
proof (induction h rule: alternating.induct)
  case 1
  then show ?case by simp
next
  case (2 b)
  then show ?case by (simp add: executing_def)
next
  case (3 b c h)
  then have "executing (Start b # End c # h) = executing h"
    by (simp add: executing_def)
  then show ?case using 3 by simp
next
  case (4 b c h)
  then show ?case by simp
next
  case (5 b h)
  then show ?case by simp
qed

lemma alternating_end:
  "alternating h \<Longrightarrow> executing h = [a] \<Longrightarrow> alternating (h @ [End a])"
proof (induction h rule: alternating.induct)
  case 1
  then show ?case by simp
next
  case (2 b)
  then show ?case by (simp add: executing_def)
next
  case (3 b c h)
  then have "executing (Start b # End c # h) = executing h"
    by (simp add: executing_def)
  then show ?case using 3 by simp
next
  case (4 b c h)
  then show ?case by simp
next
  case (5 b h)
  then show ?case by simp
qed

lemma alternating_admit:
  assumes "inv_funnel 1 f" and "alternating (history f)" and "concurrency cfg = Some 1"
  shows "alternating (history (admit cfg q f))"
  using assms(1,2)
proof (induction q arbitrary: f)
  case Nil
  then show ?case by simp
next
  case (Cons job waiting)
  show ?case
  proof (cases "slot_free cfg f \<and> 0 < rateTokens f")
    case False
    then show ?thesis using Cons.prems by auto
  next
    case True
    define f' where "f' = f\<lparr> concurrencyInUse := Suc (concurrencyInUse f),
              rateTokens := rateTokens f - 1,
              history := history f @ [Start job] \<rparr>"
    have "concurrencyInUse f = 0" using True assms(3) by (simp add: slot_free_def)
    then have "executing (history f) = []"
      using Cons.prems(1) by (simp add: inv_funnel_def)
    then have a: "alternating (history f')"
      using alternating_start [OF Cons.prems(2)] by (simp add: f'_def)
    have "admit cfg (job # waiting) f = admit cfg waiting f'"
      using True by (simp add: f'_def)
    moreover have "inv_funnel 1 (admit cfg [job] f)"
      using Cons.prems(1) assms(3) by (rule inv_funnel_admit)
    then have "inv_funnel 1 f'"
      using True by (simp add: f'_def inv_funnel_def)
    ultimately show ?thesis using Cons.IH [OF _ a] by simp
  qed
qed

lemma alternating_step:
  assumes "inv_funnel 1 f" and "alternating (history f)" and "concurrency cfg = Some 1"
  shows "alternating (history (funnel_step cfg a f))"
proof (cases a)
  case Submit
  have "inv_funnel 1 (f\<lparr> submitted := Suc (submitted f) \<rparr>)"
    using assms(1) by (simp add: inv_funnel_def)
  then show ?thesis using Submit assms(2,3) by (simp add: submit_def alternating_admit)
next
  case (Complete job)
  show ?thesis
  proof (cases "job \<in> set (executing (history f))")
    case False
    then show ?thesis using Complete assms(2) by (simp add: complete_def)
  next
    case True
    define f' where "f' = f\<lparr> concurrencyInUse := concurrencyInUse f - 1,
              history := history f @ [End job] \<rparr>"
    have "executing (history f) = [job]"
      using executing_alternating [OF assms(2)] True by auto
    then have a: "alternating (history f')"
      using alternating_end [OF assms(2)] by (simp add: f'_def)
    have "inv_funnel 1 (funnel_step cfg (Complete job) f)"
      using assms(1,3) by (rule inv_funnel_step)
    have i: "inv_funnel 1 f'"
    proof -
      have cnt: "concurrencyInUse f = length (executing (history f))"
        and bnd: "\<And>i. length (executing (take i (history f))) \<le> 1"
        using assms(1) by (simp_all add: inv_funnel_def)
      have "length (executing (take i (history f'))) \<le> 1" for i
        using bnd [of i] \<open>executing (history f) = [job]\<close>
        by (cases "i \<le> length (history f)") (simp_all add: f'_def)
      moreover have "concurrencyInUse f' = length (executing (history f'))"
        using cnt \<open>executing (history f) = [job]\<close> by (simp add: f'_def)
      ultimately show ?thesis unfolding inv_funnel_def by blast
    qed
    show ?thesis using Complete True i a assms(3)
      by (simp add: complete_def alternating_admit f'_def)
  qed
next
  case Refill
  have "inv_funnel 1 (f\<lparr> rateTokens := min (burst cfg) (Suc (rateTokens f)) \<rparr>)"
    using assms(1) by (simp add: inv_funnel_def)
  then show ?thesis using Refill assms(2,3) by (simp add: refill_def alternating_admit)
qed

lemma alternating_run:
  assumes "inv_funnel 1 f" and "alternating (history f)" and "concurrency cfg = Some 1"
  shows "alternating (history (funnel_run cfg acts f))"
  using assms(1,2)
proof (induction acts arbitrary: f)
  case Nil
  then show ?case by simp
next
  case (Cons a acts)
  have "inv_funnel 1 (funnel_step cfg a f)" using Cons.prems(1) assms(3) by (rule inv_funnel_step)
  moreover have "alternating (history (funnel_step cfg a f))"
    using Cons.prems assms(3) by (rule alternating_step)
  ultimately show ?case using Cons.IH by simp
qed

lemma timings_lower:
  "(s, e) \<in> set (timings t h) \<Longrightarrow> int t \<le> s"
proof (induction t h rule: timings.induct)
  case (1 t)
  then show ?case by simp
next
  case (2 t job h)
  then show ?case by (cases "end_of job (Suc t) h") (auto split: if_splits)
next
  case (3 t job h)
  then show ?case by auto
qed

lemma timings_sorted: "sorted (map fst (timings t h))"
proof (induction t h rule: timings.induct)
  case (1 t)
  then show ?case by simp
next
  case (2 t job h)
  have "\<forall>x \<in> set (timings (Suc t) h). int t \<le> fst x"
    using timings_lower [of _ _ "Suc t" h] by fastforce
  then show ?case using 2 by (cases "end_of job (Suc t) h") auto
next
  case (3 t job h)
  then show ?case by simp
qed

lemma no_overlap_alternating:
  "alternating h \<Longrightarrow> lastEnd < int t \<Longrightarrow> no_overlap lastEnd (timings t h)"
proof (induction h arbitrary: lastEnd t rule: alternating.induct)
  case 1
  then show ?case by simp
next
  case (2 a)
  then show ?case by simp
next
  case (3 a b h)
  then have "no_overlap (int (Suc t)) (timings (Suc (Suc t)) h)" by simp
  then show ?case using 3 by simp
next
  case (4 a b h)
  then show ?case by simp
next
  case (5 b h)
  then show ?case by simp
qed

text \<open>
  Claim C9, on the Funnel as the spec describes it. For a funnel with \<open>n\<close> slots and any
  sequence of submissions, completions and refills, the counter is the number of
  executing operations and at no moment of the history are more than \<open>n\<close> operations
  executing. With one slot no two executions overlap: of two operations that started, the
  one that started first has ended strictly before the other starts; and the check of
  \<open>aws-throttle.test.ts\<close> holds of the timings of the completed executions.
\<close>

theorem funnel_never_exceeds_concurrency:
  assumes "f = funnel_run cfg acts (funnel_init cfg)" and "concurrency cfg = Some n"
  shows "concurrencyInUse f = length (executing (history f))
       \<and> (\<forall>i. length (executing (take i (history f))) \<le> n)
       \<and> (n = 1 \<longrightarrow>
            (\<forall>i j a b. i < j \<and> j < length (history f)
                \<and> history f ! i = Start a \<and> history f ! j = Start b \<longrightarrow>
              (\<exists>k. i < k \<and> k < j \<and> history f ! k = End a))
          \<and> throttle_test (timings 1 (history f)))"
proof -
  have iv: "inv_funnel n f"
    using assms inv_funnel_run [OF inv_funnel_init] by simp
  then have c1: "concurrencyInUse f = length (executing (history f))"
    and c2: "\<forall>i. length (executing (take i (history f))) \<le> n"
    by (simp_all add: inv_funnel_def)
  have c3: "\<forall>i j a b. i < j \<and> j < length (history f)
                \<and> history f ! i = Start a \<and> history f ! j = Start b \<longrightarrow>
              (\<exists>k. i < k \<and> k < j \<and> history f ! k = End a)" if n1: "n = 1"
  proof (intro impI allI, elim conjE)
    fix i j a b
    assume ij: "i < j" and jl: "j < length (history f)"
      and si: "history f ! i = Start a" and sj: "history f ! j = Start b"
    define h where "h = history f"
    have bound: "length (executing (take m h)) \<le> 1" for m
      using c2 n1 by (simp add: h_def)
    have ti: "take (Suc i) h = take i h @ [Start a]"
      using ij jl si by (simp add: take_Suc_conv_app_nth h_def)
    have tj: "take (Suc j) h = take j h @ [Start b]"
      using jl sj by (simp add: take_Suc_conv_app_nth h_def)
    have ain: "a \<in> set (executing (take (Suc i) h))" by (simp add: ti)
    have "length (executing (take (Suc j) h)) \<le> 1" by (rule bound)
    then have "executing (take j h) = []" by (simp add: tj)
    then have aout: "a \<notin> set (executing (take j h))" by simp
    have "\<exists>k. Suc i \<le> k \<and> k < j \<and> h ! k = End a"
      using ain aout ij jl by (intro ended_between) (simp_all add: h_def)
    then obtain k where "Suc i \<le> k" and "k < j" and "h ! k = End a" by blast
    then have "i < k \<and> k < j \<and> history f ! k = End a" by (simp add: h_def)
    then show "\<exists>k. i < k \<and> k < j \<and> history f ! k = End a" by blast
  qed
  have c4: "throttle_test (timings 1 (history f))" if n1: "n = 1"
  proof -
    have one: "concurrency cfg = Some 1" using assms(2) n1 by simp
    have "alternating (history (funnel_run cfg acts (funnel_init cfg)))"
      using inv_funnel_init _ one by (rule alternating_run) (simp add: funnel_init_def)
    then have "alternating (history f)" using assms(1) by simp
    then have "no_overlap 0 (timings 1 (history f))"
      by (rule no_overlap_alternating) simp
    moreover have "sort_key fst (timings 1 (history f)) = timings 1 (history f)"
      using timings_sorted by (rule sort_key_id_if_sorted)
    ultimately show ?thesis by (simp add: throttle_test_def)
  qed
  show ?thesis using c1 c2 c3 c4 by blast
qed

theorem funnel_never_exceeds_concurrency_witness:
  "history (funnel_run \<lparr> concurrency = Some 1, burst = 3 \<rparr>
       [Submit, Submit, Submit, Complete 0, Complete 1, Complete 2]
       (funnel_init \<lparr> concurrency = Some 1, burst = 3 \<rparr>))
     = [Start 0, End 0, Start 1, End 1, Start 2, End 2]
   \<and> length (executing (take 3 (history (funnel_run \<lparr> concurrency = Some 1, burst = 3 \<rparr>
       [Submit, Submit, Submit, Complete 0, Complete 1, Complete 2]
       (funnel_init \<lparr> concurrency = Some 1, burst = 3 \<rparr>))))) \<le> 1
   \<and> concurrencyInUse (funnel_run \<lparr> concurrency = Some 1, burst = 3 \<rparr>
       [Submit, Submit, Submit, Complete 0, Complete 1, Complete 2]
       (funnel_init \<lparr> concurrency = Some 1, burst = 3 \<rparr>)) = 0
   \<and> throttle_test [(1, 2), (3, 4), (5, 6)]"
proof -
  define cfg where "cfg = \<lparr> concurrency = Some 1, burst = 3 \<rparr>"
  define f where "f = funnel_run cfg [Submit, Submit, Submit, Complete 0, Complete 1, Complete 2]
       (funnel_init cfg)"
  have c: "concurrency cfg = Some 1" by (simp add: cfg_def)
  have h: "history f = [Start 0, End 0, Start 1, End 1, Start 2, End 2]"
    unfolding f_def cfg_def by code_simp
  have e: "executing [Start 0, End 0, Start 1, End 1, Start 2, End 2] = []"
    by code_simp
  have tm: "timings 1 [Start 0, End 0, Start 1, End 1, Start 2, End 2] = [(1, 2), (3, 4), (5, 6)]"
    by code_simp
  note th = funnel_never_exceeds_concurrency [OF f_def c]
  have t2: "length (executing (take 3 (history f))) \<le> 1" using th by blast
  have t3: "concurrencyInUse f = 0" using th h e by simp
  have "throttle_test (timings 1 (history f))" using th by blast
  then have t4: "throttle_test [(1, 2), (3, 4), (5, 6)]" using h tm by simp
  show ?thesis using h t2 t3 t4 unfolding f_def cfg_def by simp
qed

end
